theory Spec2Isabelle
  imports Main "HOL-Library.Word"
begin

section \<open>Strings of the template engine\<close>

text \<open>
  The template engine (\<^verbatim>\<open>src/utils/templateEngine.ts\<close>) works on JavaScript strings,
  which are sequences of 16-bit code units. The pattern \<^verbatim>\<open>/\{([^}]+)\}/g\<close> has no
  \<^verbatim>\<open>u\<close> flag, so it also works code unit by code unit. \<open>js\<close> writes an ASCII
  literal as such a sequence.
\<close>

type_synonym jsstring = "16 word list"

definition js :: "string \<Rightarrow> jsstring" where
  "js s = map of_char s"

definition LBRACE :: "16 word" where
  "LBRACE = 0x7B"

definition RBRACE :: "16 word" where
  "RBRACE = 0x7D"

text \<open>
  \<^verbatim>\<open>String.prototype.trim\<close> removes the code units of the productions WhiteSpace and
  LineTerminator from both ends: TAB, LF, VT, FF, CR, SPACE, NBSP, U+1680, U+2000 to U+200A,
  U+2028, U+2029, U+202F, U+205F, U+3000 and U+FEFF.
\<close>

definition isWhiteSpace :: "16 word \<Rightarrow> bool" where
  "isWhiteSpace u \<longleftrightarrow>
     u \<in> set [0x09, 0x0A, 0x0B, 0x0C, 0x0D, 0x20, 0xA0, 0x1680,
              0x2028, 0x2029, 0x202F, 0x205F, 0x3000, 0xFEFF]
     \<or> (0x2000 \<le> u \<and> u \<le> 0x200A)"

definition trim :: "jsstring \<Rightarrow> jsstring" where
  "trim s = rev (dropWhile isWhiteSpace (rev (dropWhile isWhiteSpace s)))"

section \<open>The pattern and its two drivers\<close>

text \<open>
  \<open>variablePattern\<close> is \<^verbatim>\<open>/\{([^}]+)\}/\<close> tried at the head of a string. It needs
  \<^verbatim>\<open>{\<close>, then a run of one or more code units other than \<^verbatim>\<open>}\<close>, then
  \<^verbatim>\<open>}\<close>. The run is greedy, and giving units back never helps (the unit after a shorter
  run is not \<^verbatim>\<open>}\<close>), so the run is the whole stretch up to the first
  \<^verbatim>\<open>}\<close>; the attempt fails when that stretch is empty or no \<^verbatim>\<open>}\<close> follows.
  The result is capture group 1 and the text after the match; the matched text itself is
  \<open>LBRACE # inner @ [RBRACE]\<close>.
\<close>

fun variablePattern :: "jsstring \<Rightarrow> (jsstring \<times> jsstring) option" where
  "variablePattern [] = None"
| "variablePattern (c # cs) =
     (if c = LBRACE then
        (let inner = takeWhile (\<lambda>u. u \<noteq> RBRACE) cs;
             after = dropWhile (\<lambda>u. u \<noteq> RBRACE) cs
         in if inner \<noteq> [] \<and> after \<noteq> [] then Some (inner, tl after) else None)
      else None)"

text \<open>
  \<^verbatim>\<open>template.matchAll(variablePattern)\<close>: the global search. At each position the
  pattern is tried; on a match the search goes on after the match, otherwise one code unit
  further. The list holds \<^verbatim>\<open>match[1]\<close> of every match, in order.
\<close>

function matchAll :: "jsstring \<Rightarrow> jsstring list" where
  "matchAll [] = []"
| "matchAll (c # cs) =
     (case variablePattern (c # cs) of
        None \<Rightarrow> matchAll cs
      | Some (inner, rest) \<Rightarrow> inner # matchAll rest)"
  by pat_completeness auto
termination
proof (relation "measure length")
  fix c :: "16 word" and cs x y :: jsstring and x2
  assume "variablePattern (c # cs) = Some x2" and "(x, y) = x2"
  then have "y = tl (dropWhile (\<lambda>u. u \<noteq> RBRACE) cs)"
    by (auto simp: Let_def split: if_splits)
  moreover have "length (dropWhile (\<lambda>u. u \<noteq> RBRACE) cs) \<le> length cs"
    by (rule length_dropWhile_le)
  ultimately show "(y, c # cs) \<in> measure length"
    by simp
qed simp_all

text \<open>
  \<^verbatim>\<open>result.replace(variablePattern, replaceValue)\<close> with a function as replacement: the
  same search; each match is replaced by what the function returns for the matched text and
  group 1 (taken literally, a function's result is not scanned for \<^verbatim>\<open>$\<close> patterns),
  every other code unit is copied.
\<close>

function replace :: "(jsstring \<Rightarrow> jsstring \<Rightarrow> jsstring) \<Rightarrow> jsstring \<Rightarrow> jsstring" where
  "replace replaceValue [] = []"
| "replace replaceValue (c # cs) =
     (case variablePattern (c # cs) of
        None \<Rightarrow> c # replace replaceValue cs
      | Some (inner, rest) \<Rightarrow>
          replaceValue (LBRACE # inner @ [RBRACE]) inner @ replace replaceValue rest)"
  by pat_completeness auto
termination
proof (relation "measure (\<lambda>(f, s). length s)")
  fix replaceValue :: "jsstring \<Rightarrow> jsstring \<Rightarrow> jsstring"
    and c :: "16 word" and cs x y :: jsstring and x2
  assume "variablePattern (c # cs) = Some x2" and "(x, y) = x2"
  then have "y = tl (dropWhile (\<lambda>u. u \<noteq> RBRACE) cs)"
    by (auto simp: Let_def split: if_splits)
  moreover have "length (dropWhile (\<lambda>u. u \<noteq> RBRACE) cs) \<le> length cs"
    by (rule length_dropWhile_le)
  ultimately show "((replaceValue, y), (replaceValue, c # cs)) \<in> measure (\<lambda>(f, s). length s)"
    by simp
qed simp_all

section \<open>extractVariables\<close>

text \<open>
  \<^verbatim>\<open>new Set<string>()\<close> keeps its members in insertion order and \<^verbatim>\<open>add\<close> of a
  member already present changes nothing; \<^verbatim>\<open>Array.from\<close> lists the members in that
  order. The set is the list of its members.
\<close>

definition setAdd :: "jsstring list \<Rightarrow> jsstring \<Rightarrow> jsstring list" where
  "setAdd variables x = (if x \<in> set variables then variables else variables @ [x])"

text \<open>
  The \<^verbatim>\<open>for (const match of matches)\<close> loop; \<^verbatim>\<open>if (variableName)\<close> holds for
  every string but the empty one.
\<close>

fun collectNames :: "jsstring list \<Rightarrow> jsstring list \<Rightarrow> jsstring list" where
  "collectNames variables [] = variables"
| "collectNames variables (m # ms) =
     (let variableName = trim m
      in collectNames (if variableName \<noteq> [] then setAdd variables variableName else variables) ms)"

definition extractVariables :: "jsstring \<Rightarrow> jsstring list" where
  "extractVariables template = collectNames [] (matchAll template)"

section \<open>applyVariables\<close>

text \<open>
  \<^verbatim>\<open>values\<close> is a plain object (\<^verbatim>\<open>Record<string, string>\<close>; the editor builds it
  from \<^verbatim>\<open>{}\<close>). Its own properties are the entries of the mapping, a partial map.
  The read \<^verbatim>\<open>values[key]\<close> first looks among the own properties and then, as every
  property read of JavaScript does, on the prototype, which for a plain object is
  \<^verbatim>\<open>Object.prototype\<close>. So a key that is not an entry but names a member of
  \<^verbatim>\<open>Object.prototype\<close> reads as that member and not as \<^verbatim>\<open>undefined\<close>.
  \<^verbatim>\<open>Object.prototype\<close> is taken as the engine provides it, with the members of the
  language standard (Annex B included) and no other.
\<close>

datatype jsvalue = Undefined | StringValue jsstring | ObjectPrototypeMember jsstring

definition objectPrototypeKeys :: "jsstring list" where
  "objectPrototypeKeys = map js
     [''constructor'', ''__defineGetter__'', ''__defineSetter__'', ''hasOwnProperty'',
      ''__lookupGetter__'', ''__lookupSetter__'', ''isPrototypeOf'', ''propertyIsEnumerable'',
      ''toString'', ''valueOf'', ''__proto__'', ''toLocaleString'']"

definition getProperty :: "(jsstring \<rightharpoonup> jsstring) \<Rightarrow> jsstring \<Rightarrow> jsvalue" where
  "getProperty values key =
     (case values key of
        Some v \<Rightarrow> StringValue v
      | None \<Rightarrow> if key \<in> set objectPrototypeKeys then ObjectPrototypeMember key else Undefined)"

text \<open>\<^verbatim>\<open>a ?? b\<close>: \<open>b\<close> when \<open>a\<close> is \<^verbatim>\<open>undefined\<close> (or \<^verbatim>\<open>null\<close>), else \<open>a\<close>.\<close>

definition nullish :: "jsvalue \<Rightarrow> jsvalue \<Rightarrow> jsvalue" where
  "nullish a b = (case a of Undefined \<Rightarrow> b | _ \<Rightarrow> a)"

text \<open>
  \<^verbatim>\<open>replace\<close> converts what the replacer returns to a string. A string stays as it is.
  The members of \<^verbatim>\<open>Object.prototype\<close> are built-in functions, printed as
  \<^verbatim>\<open>function name() { [native code] }\<close> (the spelling of V8; other engines differ in
  white space only), but for \<^verbatim>\<open>__proto__\<close>, an accessor that yields
  \<^verbatim>\<open>Object.prototype\<close> itself, printed \<^verbatim>\<open>[object Object]\<close>. The member
  \<^verbatim>\<open>constructor\<close> is the function named \<^verbatim>\<open>Object\<close>.
\<close>

definition toString :: "jsvalue \<Rightarrow> jsstring" where
  "toString v =
     (case v of
        Undefined \<Rightarrow> js ''undefined''
      | StringValue s \<Rightarrow> s
      | ObjectPrototypeMember k \<Rightarrow>
          if k = js ''__proto__'' then js ''[object Object]''
          else js ''function '' @ (if k = js ''constructor'' then js ''Object'' else k)
               @ js ''() { [native code] }'')"

text \<open>
  The arrow function \<^verbatim>\<open>(match, variableName) => ...\<close> that \<open>applyVariables\<close> hands to
  \<^verbatim>\<open>replace\<close>, with its result converted as \<^verbatim>\<open>replace\<close> does.
\<close>

definition replacer :: "(jsstring \<rightharpoonup> jsstring) \<Rightarrow> jsstring \<Rightarrow> jsstring \<Rightarrow> jsstring" where
  "replacer values match variableName =
     (let key = trim variableName;
          value = nullish (getProperty values key) (StringValue [])
      in toString value)"

definition applyVariables :: "jsstring \<Rightarrow> (jsstring \<rightharpoonup> jsstring) \<Rightarrow> jsstring" where
  "applyVariables template values = replace (replacer values) template"

section \<open>Vocabulary of the properties\<close>

text \<open>
  The trimmed names of the variable references of a template, in scanning order and with
  repetitions: what the loop of \<open>extractVariables\<close> looks at.
\<close>

definition referenceNames :: "jsstring \<Rightarrow> jsstring list" where
  "referenceNames template = map trim (matchAll template)"

text \<open>The number of references of a template whose trimmed name is \<open>n\<close>.\<close>

definition referencesTo :: "jsstring \<Rightarrow> jsstring \<Rightarrow> nat" where
  "referencesTo template n = length (filter (\<lambda>m. m = n) (referenceNames template))"

text \<open>
  The number of positions of a text at which the pattern \<open>p\<close> begins (occurrences may
  overlap).
\<close>

fun occurrences :: "jsstring \<Rightarrow> jsstring \<Rightarrow> nat" where
  "occurrences p [] = 0"
| "occurrences p (c # cs) =
     (if take (length p) (c # cs) = p then 1 else 0) + occurrences p cs"

text \<open>
  A text put together from literal pieces and spans in turn: piece, span, piece, ..., piece.
\<close>

fun weave :: "jsstring list \<Rightarrow> jsstring list \<Rightarrow> jsstring" where
  "weave [] spans = []"
| "weave (l # ls) [] = l"
| "weave (l # ls) (x # spans) = l @ x @ weave ls spans"

section \<open>The object store\<close>

text \<open>
  The pattern is written with the \<^verbatim>\<open>g\<close> flag, so the \<^verbatim>\<open>RegExp\<close> object it
  denotes carries state: \<^verbatim>\<open>lastIndex\<close>, where the next \<^verbatim>\<open>exec\<close> starts and
  which \<^verbatim>\<open>exec\<close> moves. The \<^verbatim>\<open>Set\<close> is mutable too. Objects outlive the call
  that made them for as long as something refers to them, so what a call could leave to the
  next one is the store of objects: for every \<^verbatim>\<open>RegExp\<close> made so far its
  \<^verbatim>\<open>lastIndex\<close>, for every \<^verbatim>\<open>Set\<close> its members, and the next free address.
  The source has no variable outside its two functions.
\<close>

record store =
  lastIndexes :: "nat \<Rightarrow> nat"
  members :: "nat \<Rightarrow> jsstring list"
  nextObject :: nat

text \<open>
  A new \<^verbatim>\<open>RegExp\<close> object with the given \<^verbatim>\<open>lastIndex\<close>; a new, empty
  \<^verbatim>\<open>Set\<close>.
\<close>

definition newRegExp :: "store \<Rightarrow> nat \<Rightarrow> nat \<times> store" where
  "newRegExp st i =
     (nextObject st,
      st\<lparr>lastIndexes := (lastIndexes st)(nextObject st := i), nextObject := Suc (nextObject st)\<rparr>)"

definition newSet :: "store \<Rightarrow> nat \<times> store" where
  "newSet st =
     (nextObject st,
      st\<lparr>members := (members st)(nextObject st := []), nextObject := Suc (nextObject st)\<rparr>)"

text \<open>
  The leftmost match in a text: how many code units lie before it, its group 1, and the text
  behind it.
\<close>

fun search :: "jsstring \<Rightarrow> (nat \<times> jsstring \<times> jsstring) option" where
  "search [] = None"
| "search (c # cs) =
     (case variablePattern (c # cs) of
        Some (inner, rest) \<Rightarrow> Some (0, inner, rest)
      | None \<Rightarrow> (case search cs of
                  None \<Rightarrow> None
                | Some (k, inner, rest) \<Rightarrow> Some (Suc k, inner, rest)))"

text \<open>
  \<^verbatim>\<open>exec\<close> on a global pattern: the search starts at \<^verbatim>\<open>lastIndex\<close>; a match
  gives its position and group 1 and moves \<^verbatim>\<open>lastIndex\<close> behind the match; no match
  (or a \<^verbatim>\<open>lastIndex\<close> beyond the end) gives \<^verbatim>\<open>null\<close> and sets
  \<^verbatim>\<open>lastIndex\<close> to 0.
\<close>

definition regExpExec :: "store \<Rightarrow> nat \<Rightarrow> jsstring \<Rightarrow> (nat \<times> jsstring) option \<times> store" where
  "regExpExec st rx s =
     (let i = lastIndexes st rx
      in if i > length s then (None, st\<lparr>lastIndexes := (lastIndexes st)(rx := 0)\<rparr>)
         else (case search (drop i s) of
                 None \<Rightarrow> (None, st\<lparr>lastIndexes := (lastIndexes st)(rx := 0)\<rparr>)
               | Some (k, inner, rest) \<Rightarrow>
                   (Some (i + k, inner),
                    st\<lparr>lastIndexes := (lastIndexes st)(rx := length s - length rest)\<rparr>)))"

text \<open>The body of the \<^verbatim>\<open>for\<close> loop of \<open>extractVariables\<close>, on the set in the store.\<close>

definition loopBody :: "store \<Rightarrow> nat \<Rightarrow> jsstring \<Rightarrow> store" where
  "loopBody st variables inner =
     (let variableName = trim inner
      in if variableName \<noteq> []
         then st\<lparr>members := (members st)(variables := setAdd (members st variables) variableName)\<rparr>
         else st)"

text \<open>
  \<^verbatim>\<open>for (const match of matches)\<close>: the iterator of \<^verbatim>\<open>matchAll\<close> calls
  \<^verbatim>\<open>exec\<close> on its matcher until that gives \<^verbatim>\<open>null\<close>.
\<close>

function forOfMatches :: "store \<Rightarrow> nat \<Rightarrow> nat \<Rightarrow> jsstring \<Rightarrow> store" where
  "forOfMatches st matcher variables s =
     (case regExpExec st matcher s of
        (None, st') \<Rightarrow> st'
      | (Some (position, inner), st') \<Rightarrow>
          forOfMatches (loopBody st' variables inner) matcher variables s)"
  by pat_completeness auto
termination
proof (relation "measure (\<lambda>(st, matcher, variables, s). Suc (length s) - lastIndexes st matcher)")
  show "wf (measure (\<lambda>(st, matcher, variables, s). Suc (length s) - lastIndexes st matcher))"
    by simp
next
  fix st st' :: store and matcher variables position :: nat and s inner :: jsstring and x y
  assume e: "(x, st') = regExpExec st matcher s" and x: "x = Some y" and y: "(position, inner) = y"
  have shorter: "length r < length u" if "search u = Some (k, g, r)" for u k g r
    using that
  proof (induction u arbitrary: k)
    case Nil
    then show ?case by simp
  next
    case (Cons c cs)
    show ?case
    proof (cases "variablePattern (c # cs)")
      case None
      with Cons.prems obtain k' where "search cs = Some (k', g, r)"
        by (auto simp del: variablePattern.simps split: option.splits)
      with Cons.IH have "length r < length cs" by blast
      then show ?thesis by simp
    next
      case (Some p)
      with Cons.prems have "variablePattern (c # cs) = Some (g, r)"
        by (auto simp del: variablePattern.simps)
      then have "r = tl (dropWhile (\<lambda>u. u \<noteq> RBRACE) cs)"
        by (auto simp: variablePattern.simps Let_def split: if_splits)
      moreover have "length (dropWhile (\<lambda>u. u \<noteq> RBRACE) cs) \<le> length cs"
        by (rule length_dropWhile_le)
      ultimately show ?thesis by simp
    qed
  qed
  let ?i = "lastIndexes st matcher"
  from e x y obtain k r where i: "?i \<le> length s" and s: "search (drop ?i s) = Some (k, inner, r)"
    and st': "st' = st\<lparr>lastIndexes := (lastIndexes st)(matcher := length s - length r)\<rparr>"
    by (auto simp: regExpExec_def Let_def split: if_splits option.splits)
  from shorter[OF s] i have "length r < length s - ?i" by simp
  with i have "Suc (length s) - (length s - length r) < Suc (length s) - ?i"
    and "Suc (length r) < Suc (length s) - ?i" by arith+
  then show "((loopBody st' variables inner, matcher, variables, s), (st, matcher, variables, s))
      \<in> measure (\<lambda>(st, matcher, variables, s). Suc (length s) - lastIndexes st matcher)"
    using st' by (simp add: loopBody_def Let_def)
qed

text \<open>
  \<^verbatim>\<open>replace\<close> with a global pattern calls \<^verbatim>\<open>exec\<close> until it gives
  \<^verbatim>\<open>null\<close>; the text between the end of one match (where \<^verbatim>\<open>lastIndex\<close> stood)
  and the start of the next is copied, each match gives way to the replacement, and the text
  behind the last match is copied. (The method calls the replacement function only after the
  last \<^verbatim>\<open>exec\<close>; the function here reads the mapping and nothing else, so the order
  makes no difference.)
\<close>

function replaceLoop ::
  "store \<Rightarrow> nat \<Rightarrow> jsstring \<Rightarrow> (jsstring \<Rightarrow> jsstring \<Rightarrow> jsstring) \<Rightarrow> jsstring \<times> store" where
  "replaceLoop st rx s replaceValue =
     (let i = lastIndexes st rx
      in case regExpExec st rx s of
           (None, st') \<Rightarrow> (drop i s, st')
         | (Some (position, inner), st') \<Rightarrow>
             (case replaceLoop st' rx s replaceValue of
                (out, st'') \<Rightarrow>
                  (take (position - i) (drop i s)
                   @ replaceValue (LBRACE # inner @ [RBRACE]) inner @ out, st'')))"
  by pat_completeness auto
termination
proof (relation "measure (\<lambda>(st, rx, s, replaceValue). Suc (length s) - lastIndexes st rx)")
  show "wf (measure (\<lambda>(st, rx, s, replaceValue). Suc (length s) - lastIndexes st rx))"
    by simp
next
  fix st st' :: store and rx position i :: nat and s inner :: jsstring
    and replaceValue :: "jsstring \<Rightarrow> jsstring \<Rightarrow> jsstring" and x y
  assume i: "i = lastIndexes st rx"
    and e: "(x, st') = regExpExec st rx s" and x: "x = Some y" and y: "(position, inner) = y"
  have shorter: "length r < length u" if "search u = Some (k, g, r)" for u k g r
    using that
  proof (induction u arbitrary: k)
    case Nil
    then show ?case by simp
  next
    case (Cons c cs)
    show ?case
    proof (cases "variablePattern (c # cs)")
      case None
      with Cons.prems obtain k' where "search cs = Some (k', g, r)"
        by (auto simp del: variablePattern.simps split: option.splits)
      with Cons.IH have "length r < length cs" by blast
      then show ?thesis by simp
    next
      case (Some p)
      with Cons.prems have "variablePattern (c # cs) = Some (g, r)"
        by (auto simp del: variablePattern.simps)
      then have "r = tl (dropWhile (\<lambda>u. u \<noteq> RBRACE) cs)"
        by (auto simp: variablePattern.simps Let_def split: if_splits)
      moreover have "length (dropWhile (\<lambda>u. u \<noteq> RBRACE) cs) \<le> length cs"
        by (rule length_dropWhile_le)
      ultimately show ?thesis by simp
    qed
  qed
  let ?i = "lastIndexes st rx"
  from e x y obtain k r where le: "?i \<le> length s" and s: "search (drop ?i s) = Some (k, inner, r)"
    and st': "st' = st\<lparr>lastIndexes := (lastIndexes st)(rx := length s - length r)\<rparr>"
    by (auto simp: regExpExec_def Let_def split: if_splits option.splits)
  from shorter[OF s] le have "length r < length s - ?i" by simp
  with le have "Suc (length s) - (length s - length r) < Suc (length s) - ?i"
    and "Suc (length r) < Suc (length s) - ?i" by arith+
  then show "((st', rx, s, replaceValue), (st, rx, s, replaceValue))
      \<in> measure (\<lambda>(st, rx, s, replaceValue). Suc (length s) - lastIndexes st rx)"
    using st' by simp
qed

text \<open>
  A call of \<open>extractVariables\<close> in a store: the pattern literal makes a new
  \<^verbatim>\<open>RegExp\<close> with \<^verbatim>\<open>lastIndex\<close> 0, \<^verbatim>\<open>matchAll\<close> makes its own matcher
  with the \<^verbatim>\<open>lastIndex\<close> of the pattern, \<^verbatim>\<open>new Set\<close> makes the set, the loop
  runs, and \<^verbatim>\<open>Array.from\<close> reads the set. The call returns the array and the store
  it leaves.
\<close>

definition extractVariables_call :: "store \<Rightarrow> jsstring \<Rightarrow> jsstring list \<times> store" where
  "extractVariables_call st template =
     (let (rx, st1) = newRegExp st 0;
          (matcher, st2) = newRegExp st1 (lastIndexes st1 rx);
          (variables, st3) = newSet st2;
          st4 = forOfMatches st3 matcher variables template
      in (members st4 variables, st4))"

text \<open>
  A call of \<open>applyVariables\<close> in a store: a new \<^verbatim>\<open>RegExp\<close>, whose
  \<^verbatim>\<open>lastIndex\<close> the method \<^verbatim>\<open>replace\<close> sets to 0 before it searches.
  \<^verbatim>\<open>values\<close> is only read.
\<close>

definition applyVariables_call ::
  "store \<Rightarrow> jsstring \<Rightarrow> (jsstring \<rightharpoonup> jsstring) \<Rightarrow> jsstring \<times> store" where
  "applyVariables_call st template values =
     (let (rx, st1) = newRegExp st 0;
          st2 = st1\<lparr>lastIndexes := (lastIndexes st1)(rx := 0)\<rparr>
      in replaceLoop st2 rx template (replacer values))"

text \<open>The store before any object is made.\<close>

definition emptyStore :: store where
  "emptyStore = \<lparr>lastIndexes = (\<lambda>a. 0), members = (\<lambda>a. []), nextObject = 0\<rparr>"

section \<open>The error handler\<close>

text \<open>
  \<^verbatim>\<open>src/utils/errorHandler.ts\<close>: the class \<^verbatim>\<open>ErrorHandler\<close> keeps the logged
  errors in the array \<^verbatim>\<open>errorLog\<close>, with \<^verbatim>\<open>maxLogSize = 100\<close>.
\<close>

datatype ErrorSeverity = LOW | MEDIUM | HIGH | CRITICAL

datatype ErrorCategory = STORAGE | NETWORK | VALIDATION | RUNTIME | UNKNOWN

record ErrorContext =
  userId :: "string option"
  action :: "string option"
  component :: "string option"
  metadata :: "(string \<times> string) list option"

text \<open>An \<^verbatim>\<open>Error\<close> object, as far as the handler reads it.\<close>

record JsError =
  message :: string
  stack :: "string option"

record LoggedError =
  message :: string
  error :: JsError
  severity :: ErrorSeverity
  category :: ErrorCategory
  "context" :: "ErrorContext option"
  timestamp :: int
  stack :: "string option"

text \<open>
  The first argument of \<^verbatim>\<open>logError\<close> is \<^verbatim>\<open>Error | unknown\<close>: an
  \<^verbatim>\<open>Error\<close>, or any other value, of which the handler makes
  \<^verbatim>\<open>new Error(String(error))\<close>. \<open>NotAnError\<close> carries that string and the stack the
  engine gives the new object.
\<close>

datatype thrown = AnError JsError | NotAnError string "string option"

record ErrorHandler =
  errorLog :: "LoggedError list"
  maxLogSize :: nat

definition newErrorHandler :: ErrorHandler where
  "newErrorHandler = \<lparr>errorLog = [], maxLogSize = 100\<rparr>"

text \<open>
  The entry \<^verbatim>\<open>logError\<close> builds. The optional parameters \<^verbatim>\<open>severity\<close> and
  \<^verbatim>\<open>category\<close> default to \<^verbatim>\<open>MEDIUM\<close> and \<^verbatim>\<open>UNKNOWN\<close>; \<open>now\<close> is
  what \<^verbatim>\<open>Date.now()\<close> returns during the call.
\<close>

definition loggedErrorOf ::
  "thrown \<Rightarrow> ErrorSeverity option \<Rightarrow> ErrorCategory option \<Rightarrow> ErrorContext option \<Rightarrow> int
   \<Rightarrow> LoggedError" where
  "loggedErrorOf err sev cat ctx now =
     (let errorObj = (case err of
                        AnError e \<Rightarrow> e
                      | NotAnError s st \<Rightarrow> \<lparr>JsError.message = s, stack = st\<rparr>)
      in \<lparr>LoggedError.message = JsError.message errorObj,
          error = errorObj,
          severity = (case sev of None \<Rightarrow> MEDIUM | Some s \<Rightarrow> s),
          category = (case cat of None \<Rightarrow> UNKNOWN | Some c \<Rightarrow> c),
          context = ctx,
          timestamp = now,
          stack = JsError.stack errorObj\<rparr>)"

text \<open>
  \<^verbatim>\<open>logError\<close>: \<^verbatim>\<open>push\<close> the entry at the end, then \<^verbatim>\<open>shift\<close> the first
  entry away if the array has become longer than \<^verbatim>\<open>maxLogSize\<close>. What follows in the
  source writes to the console and touches no field of the handler.
\<close>

definition logError ::
  "ErrorHandler \<Rightarrow> thrown \<Rightarrow> ErrorSeverity option \<Rightarrow> ErrorCategory option
   \<Rightarrow> ErrorContext option \<Rightarrow> int \<Rightarrow> ErrorHandler" where
  "logError h err sev cat ctx now =
     (let loggedError = loggedErrorOf err sev cat ctx now;
          pushed = errorLog h @ [loggedError]
      in h\<lparr>errorLog := (if length pushed > maxLogSize h then tl pushed else pushed)\<rparr>)"

text \<open>
  \<^verbatim>\<open>getErrorLog(limit?)\<close>: with a limit that is neither absent nor zero,
  \<^verbatim>\<open>errorLog.slice(-limit)\<close>, else a copy of the whole array. \<^verbatim>\<open>slice(start)\<close>
  counts a negative start from the end and clamps it to the array. The limit is an integer
  here (\<^verbatim>\<open>slice\<close> truncates a fraction).
\<close>

definition slice_array :: "'a list \<Rightarrow> int \<Rightarrow> 'a list" where
  "slice_array xs start =
     (let len = int (length xs);
          k = (if start < 0 then max (len + start) 0 else min start len)
      in drop (nat k) xs)"

definition getErrorLog :: "ErrorHandler \<Rightarrow> int option \<Rightarrow> LoggedError list" where
  "getErrorLog h limit =
     (case limit of
        None \<Rightarrow> errorLog h
      | Some l \<Rightarrow> if l \<noteq> 0 then slice_array (errorLog h) (- l) else errorLog h)"

definition clearErrorLog :: "ErrorHandler \<Rightarrow> ErrorHandler" where
  "clearErrorLog h = h\<lparr>errorLog := []\<rparr>"

text \<open>A sequence of \<^verbatim>\<open>logError\<close> calls, each given by its arguments and its clock.\<close>

type_synonym logCall =
  "thrown \<times> ErrorSeverity option \<times> ErrorCategory option \<times> ErrorContext option \<times> int"

fun logErrors :: "ErrorHandler \<Rightarrow> logCall list \<Rightarrow> ErrorHandler" where
  "logErrors h [] = h"
| "logErrors h ((err, sev, cat, ctx, now) # calls) =
     logErrors (logError h err sev cat ctx now) calls"

fun entryOf :: "logCall \<Rightarrow> LoggedError" where
  "entryOf (err, sev, cat, ctx, now) = loggedErrorOf err sev cat ctx now"

section \<open>The pattern at the head of a string\<close>

lemma takeWhile_upto:
  "RBRACE \<notin> set g \<Longrightarrow> takeWhile (\<lambda>u. u \<noteq> RBRACE) (g @ RBRACE # r) = g"
  by (induction g) auto

lemma dropWhile_upto:
  "RBRACE \<notin> set g \<Longrightarrow> dropWhile (\<lambda>u. u \<noteq> RBRACE) (g @ RBRACE # r) = RBRACE # r"
  by (induction g) auto

lemma takeWhile_none:
  "RBRACE \<notin> set s \<Longrightarrow> takeWhile (\<lambda>u. u \<noteq> RBRACE) s = s"
  by (induction s) auto

lemma dropWhile_none:
  "RBRACE \<notin> set s \<Longrightarrow> dropWhile (\<lambda>u. u \<noteq> RBRACE) s = []"
  by (induction s) auto

lemma vp_other: "c \<noteq> LBRACE \<Longrightarrow> variablePattern (c # s) = None"
  by simp

lemma vp_match:
  "inner \<noteq> [] \<Longrightarrow> RBRACE \<notin> set inner \<Longrightarrow>
   variablePattern (LBRACE # inner @ RBRACE # rest) = Some (inner, rest)"
  by (simp add: takeWhile_upto dropWhile_upto)

lemma vp_empty: "variablePattern (LBRACE # RBRACE # rest) = None"
  by simp

lemma vp_dangling: "RBRACE \<notin> set s \<Longrightarrow> variablePattern (LBRACE # s) = None"
  by (simp add: dropWhile_none)

lemma vp_SomeD:
  assumes "variablePattern s = Some (g, r)"
  shows "s = LBRACE # g @ RBRACE # r \<and> g \<noteq> [] \<and> RBRACE \<notin> set g"
proof (cases s)
  case Nil
  with assms show ?thesis by simp
next
  case (Cons c cs)
  let ?P = "\<lambda>u. u \<noteq> RBRACE"
  from assms Cons have c: "c = LBRACE" and g: "g = takeWhile ?P cs" and ne: "g \<noteq> []"
    and d: "dropWhile ?P cs \<noteq> []" and r: "r = tl (dropWhile ?P cs)"
    by (auto simp: Let_def split: if_splits)
  from d have "hd (dropWhile ?P cs) = RBRACE"
    using hd_dropWhile[of ?P cs] by simp
  with d r have "dropWhile ?P cs = RBRACE # r"
    by (cases "dropWhile ?P cs") auto
  then have "cs = g @ RBRACE # r"
    using takeWhile_dropWhile_id[of ?P cs] g by simp
  moreover have "RBRACE \<notin> set g"
    using g by (auto dest: set_takeWhileD)
  ultimately show ?thesis using c ne Cons by simp
qed

lemma vp_Some_iff:
  "variablePattern s = Some (g, r) \<longleftrightarrow> s = LBRACE # g @ RBRACE # r \<and> g \<noteq> [] \<and> RBRACE \<notin> set g"
  using vp_SomeD vp_match by blast

lemma vp_append:
  assumes "RBRACE \<notin> set s"
  shows "variablePattern (t @ s) = map_option (\<lambda>(g, r). (g, r @ s)) (variablePattern t)"
proof (cases t)
  case Nil
  show ?thesis
  proof (cases s)
    case Nil
    with \<open>t = []\<close> show ?thesis by simp
  next
    case (Cons c cs)
    with assms have "dropWhile (\<lambda>u. u \<noteq> RBRACE) cs = []"
      by (simp add: dropWhile_none)
    with Cons \<open>t = []\<close> show ?thesis by simp
  qed
next
  case (Cons c cs)
  let ?P = "\<lambda>u. u \<noteq> RBRACE"
  show ?thesis
  proof (cases "RBRACE \<in> set cs")
    case True
    then have "takeWhile ?P (cs @ s) = takeWhile ?P cs"
      and "dropWhile ?P (cs @ s) = dropWhile ?P cs @ s"
      and "dropWhile ?P cs \<noteq> []"
      by (auto simp: takeWhile_append1 dropWhile_append1 dropWhile_eq_Nil_conv)
    with Cons show ?thesis by (simp add: Let_def)
  next
    case False
    with assms have "dropWhile ?P (cs @ s) = []" and "dropWhile ?P cs = []"
      by (simp_all add: dropWhile_none)
    with Cons show ?thesis by simp
  qed
qed

declare variablePattern.simps [simp del]

lemma vp_Nil: "variablePattern [] = None"
  by (simp add: variablePattern.simps)

lemma vp_append_None:
  "RBRACE \<notin> set s \<Longrightarrow> variablePattern t = None \<Longrightarrow> variablePattern (t @ s) = None"
  by (simp add: vp_append)

lemma vp_append_Some:
  "RBRACE \<notin> set s \<Longrightarrow> variablePattern t = Some (g, r) \<Longrightarrow>
   variablePattern (t @ s) = Some (g, r @ s)"
  by (simp add: vp_append)

lemma matchAll_noclose: "RBRACE \<notin> set s \<Longrightarrow> matchAll s = []"
proof (induction s)
  case Nil
  show ?case by simp
next
  case (Cons c cs)
  then have "variablePattern (c # cs) = None"
    using vp_append_None[of "c # cs" "[]"] by (simp add: vp_Nil)
  with Cons show ?case by simp
qed

lemma replace_noclose: "RBRACE \<notin> set s \<Longrightarrow> replace f s = s"
proof (induction s)
  case Nil
  show ?case by simp
next
  case (Cons c cs)
  then have "variablePattern (c # cs) = None"
    using vp_append_None[of "c # cs" "[]"] by (simp add: vp_Nil)
  with Cons show ?case by simp
qed


lemma matchAll_append:
  "RBRACE \<notin> set s \<Longrightarrow> matchAll (t @ s) = matchAll t"
proof (induction t rule: matchAll.induct)
  case 1
  then show ?case by (simp add: matchAll_noclose)
next
  case (2 c cs)
  show ?case
  proof (cases "variablePattern (c # cs)")
    case None
    then have "variablePattern (c # cs @ s) = None"
      using vp_append_None[OF 2(3), of "c # cs"] by simp
    with None 2 show ?thesis by simp
  next
    case (Some p)
    obtain g r where p: "p = (g, r)" by (cases p)
    with Some have "variablePattern (c # cs @ s) = Some (g, r @ s)"
      using vp_append_Some[OF 2(3), of "c # cs"] by simp
    with Some p 2 show ?thesis by simp
  qed
qed

lemma replace_append:
  "RBRACE \<notin> set s \<Longrightarrow> replace f (t @ s) = replace f t @ s"
proof (induction f t rule: replace.induct)
  case (1 f)
  then show ?case by (simp add: replace_noclose)
next
  case (2 f c cs)
  show ?case
  proof (cases "variablePattern (c # cs)")
    case None
    then have "variablePattern (c # cs @ s) = None"
      using vp_append_None[OF 2(3), of "c # cs"] by simp
    with None 2 show ?thesis by simp
  next
    case (Some p)
    obtain g r where p: "p = (g, r)" by (cases p)
    with Some have "variablePattern (c # cs @ s) = Some (g, r @ s)"
      using vp_append_Some[OF 2(3), of "c # cs"] by simp
    with Some p 2 show ?thesis by simp
  qed
qed


lemma matchAll_other: "c \<noteq> LBRACE \<Longrightarrow> matchAll (c # t) = matchAll t"
  by (simp add: vp_other)

lemma matchAll_match:
  "g \<noteq> [] \<Longrightarrow> RBRACE \<notin> set g \<Longrightarrow> matchAll (LBRACE # g @ RBRACE # r) = g # matchAll r"
  by (simp add: vp_match)

lemma matchAll_empty_pair: "matchAll (LBRACE # RBRACE # r) = matchAll r"
proof -
  have "RBRACE \<noteq> LBRACE" by (simp add: LBRACE_def RBRACE_def)
  then show ?thesis by (simp add: vp_empty vp_other)
qed

lemma matchAll_interiors: "g \<in> set (matchAll t) \<Longrightarrow> g \<noteq> [] \<and> RBRACE \<notin> set g"
proof (induction t rule: matchAll.induct)
  case 1
  then show ?case by simp
next
  case (2 c cs)
  show ?case
  proof (cases "variablePattern (c # cs)")
    case None
    with 2 show ?thesis by simp
  next
    case (Some p)
    obtain a r where p: "p = (a, r)" by (cases p)
    with Some have "a \<noteq> []" and "RBRACE \<notin> set a"
      using vp_SomeD by blast+
    with Some p 2 show ?thesis by auto
  qed
qed

section \<open>Replacement, collection and trimming\<close>

lemma braces_differ: "RBRACE \<noteq> LBRACE"
  by (simp add: LBRACE_def RBRACE_def)

lemma replace_other: "c \<noteq> LBRACE \<Longrightarrow> replace f (c # t) = c # replace f t"
  by (simp add: vp_other)

lemma replace_match:
  "g \<noteq> [] \<Longrightarrow> RBRACE \<notin> set g \<Longrightarrow>
   replace f (LBRACE # g @ RBRACE # r) = f (LBRACE # g @ [RBRACE]) g @ replace f r"
  by (simp add: vp_match)

lemma replace_empty_pair: "replace f (LBRACE # RBRACE # r) = LBRACE # RBRACE # replace f r"
  using braces_differ by (simp add: vp_empty vp_other)

lemma replace_dangling: "RBRACE \<notin> set t \<Longrightarrow> replace f (LBRACE # t) = LBRACE # t"
  using braces_differ by (intro replace_noclose) auto

lemma matchAll_dangling: "RBRACE \<notin> set t \<Longrightarrow> matchAll (LBRACE # t) = []"
  using braces_differ by (intro matchAll_noclose) auto

lemma replace_no_match: "matchAll t = [] \<Longrightarrow> replace f t = t"
proof (induction f t rule: replace.induct)
  case (1 f)
  show ?case by simp
next
  case (2 f c cs)
  show ?case
  proof (cases "variablePattern (c # cs)")
    case None
    with 2 show ?thesis by simp
  next
    case (Some p)
    obtain a r where "p = (a, r)" by (cases p)
    with Some 2(3) show ?thesis by simp
  qed
qed

lemma matchAll_skip: "LBRACE \<notin> set pre \<Longrightarrow> matchAll (pre @ s) = matchAll s"
proof (induction pre)
  case Nil
  show ?case by simp
next
  case (Cons a pre)
  then have "matchAll (a # pre @ s) = matchAll (pre @ s)"
    by (intro matchAll_other) auto
  with Cons show ?case by simp
qed

lemma replace_skip: "LBRACE \<notin> set pre \<Longrightarrow> replace f (pre @ s) = pre @ replace f s"
proof (induction pre)
  case Nil
  show ?case by simp
next
  case (Cons a pre)
  then have "replace f (a # pre @ s) = a # replace f (pre @ s)"
    by (intro replace_other) auto
  with Cons show ?case by simp
qed

lemma replacer_own: "values (trim g) = Some v \<Longrightarrow> replacer values m g = v"
  by (simp add: replacer_def getProperty_def nullish_def toString_def)

lemma replacer_absent:
  "values (trim g) = None \<Longrightarrow> trim g \<notin> set objectPrototypeKeys \<Longrightarrow> replacer values m g = []"
  by (simp add: replacer_def getProperty_def nullish_def toString_def)

lemma replacer_inherited:
  "values (trim g) = None \<Longrightarrow> trim g \<in> set objectPrototypeKeys \<Longrightarrow> replacer values m g \<noteq> []"
  by (simp add: replacer_def getProperty_def nullish_def toString_def js_def Let_def)

lemma collectNames_foldl:
  "collectNames vs ms = foldl setAdd vs (filter (\<lambda>n. n \<noteq> []) (map trim ms))"
  by (induction ms arbitrary: vs) (simp_all add: Let_def)

lemma foldl_setAdd_set: "set (foldl setAdd vs ns) = set vs \<union> set ns"
  by (induction ns arbitrary: vs) (auto simp: setAdd_def)

lemma foldl_setAdd_distinct: "distinct vs \<Longrightarrow> distinct (foldl setAdd vs ns)"
  by (induction ns arbitrary: vs) (auto simp: setAdd_def)

lemma foldl_setAdd_prefix: "\<exists>ext. foldl setAdd vs ns = vs @ ext"
proof (induction ns arbitrary: vs)
  case Nil
  show ?case by simp
next
  case (Cons n ns)
  obtain ext where "foldl setAdd (setAdd vs n) ns = setAdd vs n @ ext"
    using Cons by blast
  moreover have "setAdd vs n = vs \<or> setAdd vs n = vs @ [n]"
    by (simp add: setAdd_def)
  ultimately show ?case by auto
qed

lemma foldl_setAdd_absorb: "set ns \<subseteq> set vs \<Longrightarrow> foldl setAdd vs ns = vs"
  by (induction ns) (auto simp: setAdd_def)

lemma trim_whitespace: "\<forall>u\<in>set w. isWhiteSpace u \<Longrightarrow> trim w = []"
proof -
  assume "\<forall>u\<in>set w. isWhiteSpace u"
  then have d: "dropWhile isWhiteSpace w = []" by simp
  show ?thesis unfolding trim_def d by simp
qed

lemma brace_not_white: "\<not> isWhiteSpace RBRACE" "\<not> isWhiteSpace LBRACE"
  by (simp_all add: isWhiteSpace_def RBRACE_def LBRACE_def)

lemma trim_padded:
  assumes "n \<noteq> []" "\<not> isWhiteSpace (hd n)" "\<not> isWhiteSpace (last n)"
    and "\<forall>u\<in>set w1. isWhiteSpace u" "\<forall>u\<in>set w2. isWhiteSpace u"
  shows "trim (w1 @ n @ w2) = n"
proof -
  have a: "dropWhile isWhiteSpace (w1 @ n @ w2) = n @ w2"
    using assms by (cases n) (simp_all add: dropWhile_append)
  have b: "dropWhile isWhiteSpace (rev w2 @ rev n) = rev n"
    using assms by (cases n rule: rev_cases) (simp_all add: dropWhile_append)
  show ?thesis by (simp add: trim_def a b)
qed

declare matchAll.simps(2) [simp del]

declare replace.simps(2) [simp del]

section \<open>Non-greedy matching\<close>

text \<open>
  Claim C5. Brace matching stops at the first closing brace after the opening one: the
  interior of every match is non-empty and holds no closing brace; a reference at the head of
  a template ends at its first closing brace and the search goes on right behind it, so two
  adjacent references are two matches; \<open>extract("{a}{b}") = ["a", "b"]\<close>. The first
  closing brace ends the match also when another opening brace comes before it:
  \<open>extract("{a {b} c}") = ["a {b"]\<close>.
\<close>

theorem matching_stops_at_first_close:
  "(g \<in> set (matchAll t) \<longrightarrow> g \<noteq> [] \<and> RBRACE \<notin> set g)
   \<and> (a \<noteq> [] \<and> RBRACE \<notin> set a \<longrightarrow> matchAll (LBRACE # a @ RBRACE # rest) = a # matchAll rest)
   \<and> (a \<noteq> [] \<and> RBRACE \<notin> set a \<and> b \<noteq> [] \<and> RBRACE \<notin> set b \<longrightarrow>
        matchAll (LBRACE # a @ RBRACE # LBRACE # b @ [RBRACE]) = [a, b])
   \<and> extractVariables (js ''{a}{b}'') = [js ''a'', js ''b'']
   \<and> extractVariables (js ''{a {b} c}'') = [js ''a {b'']"
proof -
  have ex: "extractVariables (js ''{a}{b}'') = [js ''a'', js ''b'']"
    "extractVariables (js ''{a {b} c}'') = [js ''a {b'']"
    by code_simp+
  have one: "a \<noteq> [] \<and> RBRACE \<notin> set a \<longrightarrow> matchAll (LBRACE # a @ RBRACE # rest) = a # matchAll rest"
    using matchAll_match by blast
  have two: "matchAll (LBRACE # a @ RBRACE # LBRACE # b @ [RBRACE]) = [a, b]"
    if "a \<noteq> []" "RBRACE \<notin> set a" "b \<noteq> []" "RBRACE \<notin> set b"
  proof -
    have "matchAll (LBRACE # a @ RBRACE # LBRACE # b @ [RBRACE]) = a # matchAll (LBRACE # b @ [RBRACE])"
      using that by (rule_tac matchAll_match)
    also have "matchAll (LBRACE # b @ [RBRACE]) = b # matchAll []"
      using that by (rule_tac matchAll_match)
    finally show ?thesis by simp
  qed
  from ex one two matchAll_interiors show ?thesis
    by blast
qed

theorem matching_stops_at_first_close_witness:
  "js ''a'' \<in> set (matchAll (js ''{a}}{b}''))
   \<and> js ''a'' \<noteq> [] \<and> RBRACE \<notin> set (js ''a'') \<and> js ''b'' \<noteq> [] \<and> RBRACE \<notin> set (js ''b'')
   \<and> matchAll (LBRACE # js ''a'' @ RBRACE # js ''}{b}'') = js ''a'' # matchAll (js ''}{b}'')
   \<and> matchAll (LBRACE # js ''a'' @ RBRACE # LBRACE # js ''b'' @ [RBRACE]) = [js ''a'', js ''b'']"
proof -
  have h: "js ''a'' \<noteq> [] \<and> RBRACE \<notin> set (js ''a'') \<and> js ''b'' \<noteq> [] \<and> RBRACE \<notin> set (js ''b'')"
    by code_simp
  have m: "js ''a'' \<in> set (matchAll (js ''{a}}{b}''))"
    by code_simp
  show ?thesis
    using h m matching_stops_at_first_close [of "js ''a''" "js ''{a}}{b}''" "js ''a''" "js ''}{b}''" "js ''b''"]
    by blast
qed

section \<open>Empty and blank interiors\<close>

lemma white_no_close: "\<forall>u\<in>set w. isWhiteSpace u \<Longrightarrow> RBRACE \<notin> set w"
  using brace_not_white by blast

lemma extractVariables_set: "set (extractVariables t) = set (referenceNames t) - {[]}"
  by (auto simp: extractVariables_def referenceNames_def collectNames_foldl foldl_setAdd_set)

lemma matchAll_white_span:
  assumes "LBRACE \<notin> set pre" "\<forall>u\<in>set w. isWhiteSpace u"
  shows "collectNames vs (matchAll (pre @ LBRACE # w @ RBRACE # rest)) = collectNames vs (matchAll rest)"
proof (cases "w = []")
  case True
  then show ?thesis
    using assms by (simp add: matchAll_skip matchAll_empty_pair)
next
  case False
  with assms have "matchAll (pre @ LBRACE # w @ RBRACE # rest) = w # matchAll rest"
    by (simp add: matchAll_skip matchAll_match white_no_close)
  with assms show ?thesis
    by (simp add: trim_whitespace)
qed

text \<open>
  Claim C6. A candidate whose interior is empty after trimming is discarded: the result of
  \<open>extractVariables\<close> never holds the empty name, it holds exactly the non-empty trimmed
  names of the references, and a pair of braces with nothing or only white space between them
  adds no variable; \<open>extract("{}") = []\<close>, \<open>extract("{   }") = []\<close>,
  \<open>extract("") = []\<close>.
\<close>

theorem empty_names_discarded:
  "[] \<notin> set (extractVariables t)
   \<and> set (extractVariables t) = set (referenceNames t) - {[]}
   \<and> (LBRACE \<notin> set pre \<and> (\<forall>u\<in>set w. isWhiteSpace u) \<longrightarrow>
        extractVariables (pre @ LBRACE # w @ RBRACE # rest) = extractVariables rest)
   \<and> extractVariables (js ''{}'') = []
   \<and> extractVariables (js ''{   }'') = []
   \<and> extractVariables (js '''') = []"
proof -
  have "extractVariables (js ''{}'') = []" "extractVariables (js ''{   }'') = []"
    "extractVariables (js '''') = []"
    by code_simp+
  moreover have "LBRACE \<notin> set pre \<and> (\<forall>u\<in>set w. isWhiteSpace u) \<longrightarrow>
        extractVariables (pre @ LBRACE # w @ RBRACE # rest) = extractVariables rest"
    unfolding extractVariables_def using matchAll_white_span by blast
  ultimately show ?thesis
    by (simp add: extractVariables_set)
qed

theorem empty_names_discarded_witness:
  "LBRACE \<notin> set (js ''x '') \<and> list_all isWhiteSpace (js ''  '')
   \<and> extractVariables (js ''x '' @ LBRACE # js ''  '' @ RBRACE # js ''{a}'') = extractVariables (js ''{a}'')
   \<and> extractVariables (js ''{a}'') = [js ''a'']"
proof -
  have h: "LBRACE \<notin> set (js ''x '') \<and> list_all isWhiteSpace (js ''  '')"
    by code_simp
  have e: "extractVariables (js ''{a}'') = [js ''a'']"
    by code_simp
  show ?thesis
    using h e empty_names_discarded [of "js ''{a}''" "js ''x ''" "js ''  ''" "js ''{a}''"]
    unfolding list_all_iff by blast
qed

section \<open>Names are trimmed interiors\<close>

lemma padded_span:
  assumes "n \<noteq> []" "RBRACE \<notin> set n"
    "\<forall>u\<in>set w1. isWhiteSpace u" "\<forall>u\<in>set w2. isWhiteSpace u"
  shows "w1 @ n @ w2 \<noteq> [] \<and> RBRACE \<notin> set (w1 @ n @ w2)"
  using assms by (auto dest: white_no_close)

lemma padded_matchAll:
  assumes "LBRACE \<notin> set pre" "n \<noteq> []" "RBRACE \<notin> set n"
    "\<forall>u\<in>set w1. isWhiteSpace u" "\<forall>u\<in>set w2. isWhiteSpace u"
  shows "matchAll (pre @ LBRACE # w1 @ n @ w2 @ RBRACE # post) = (w1 @ n @ w2) # matchAll post"
proof -
  have "matchAll (LBRACE # (w1 @ n @ w2) @ RBRACE # post) = (w1 @ n @ w2) # matchAll post"
    using padded_span[OF assms(2-5)] by (intro matchAll_match) auto
  with assms(1) show ?thesis by (simp add: matchAll_skip)
qed

lemma padded_replace:
  assumes "LBRACE \<notin> set pre" "n \<noteq> []" "RBRACE \<notin> set n"
    "\<forall>u\<in>set w1. isWhiteSpace u" "\<forall>u\<in>set w2. isWhiteSpace u"
  shows "replace f (pre @ LBRACE # w1 @ n @ w2 @ RBRACE # post)
         = pre @ f (LBRACE # w1 @ n @ w2 @ [RBRACE]) (w1 @ n @ w2) @ replace f post"
proof -
  have "replace f (LBRACE # (w1 @ n @ w2) @ RBRACE # post)
        = f (LBRACE # (w1 @ n @ w2) @ [RBRACE]) (w1 @ n @ w2) @ replace f post"
    using padded_span[OF assms(2-5)] by (intro replace_match) auto
  with assms(1) show ?thesis by (simp add: replace_skip)
qed

lemma replacer_key: "trim g = trim g' \<Longrightarrow> replacer values m g = replacer values m' g'"
  by (simp add: replacer_def)

text \<open>
  Claim C9. The name of a reference is its interior without the white space at both ends, so
  \<open>{ name }\<close> and \<open>{name}\<close> denote the same variable: padding a name with white space
  inside the braces changes neither the name read, nor the result of \<open>extractVariables\<close>,
  nor that of \<open>applyVariables\<close>. White space inside the name stays:
  \<open>extract("{ topic }") = ["topic"]\<close> and \<open>extract("{first name}") = ["first name"]\<close>.
  (A name here starts and ends with a code unit that is not white space and holds no closing
  brace; the text before the reference holds no opening brace, which would start the match
  earlier.)
\<close>

theorem names_are_trimmed:
  "(LBRACE \<notin> set pre \<and> n \<noteq> [] \<and> RBRACE \<notin> set n
      \<and> \<not> isWhiteSpace (hd n) \<and> \<not> isWhiteSpace (last n)
      \<and> (\<forall>u\<in>set w1. isWhiteSpace u) \<and> (\<forall>u\<in>set w2. isWhiteSpace u) \<longrightarrow>
        referenceNames (pre @ LBRACE # w1 @ n @ w2 @ RBRACE # post) = n # referenceNames post
      \<and> extractVariables (pre @ LBRACE # w1 @ n @ w2 @ RBRACE # post)
          = extractVariables (pre @ LBRACE # n @ RBRACE # post)
      \<and> applyVariables (pre @ LBRACE # w1 @ n @ w2 @ RBRACE # post) values
          = applyVariables (pre @ LBRACE # n @ RBRACE # post) values)
   \<and> extractVariables (js ''{ topic }'') = [js ''topic'']
   \<and> extractVariables (js ''{ name }'') = extractVariables (js ''{name}'')
   \<and> extractVariables (js ''{first name}'') = [js ''first name'']"
proof -
  have ex: "extractVariables (js ''{ topic }'') = [js ''topic'']"
    "extractVariables (js ''{ name }'') = extractVariables (js ''{name}'')"
    "extractVariables (js ''{first name}'') = [js ''first name'']"
    by code_simp+
  have gen: "referenceNames (pre @ LBRACE # w1 @ n @ w2 @ RBRACE # post) = n # referenceNames post
      \<and> extractVariables (pre @ LBRACE # w1 @ n @ w2 @ RBRACE # post)
          = extractVariables (pre @ LBRACE # n @ RBRACE # post)
      \<and> applyVariables (pre @ LBRACE # w1 @ n @ w2 @ RBRACE # post) values
          = applyVariables (pre @ LBRACE # n @ RBRACE # post) values"
    if h: "LBRACE \<notin> set pre" "n \<noteq> []" "RBRACE \<notin> set n"
      "\<not> isWhiteSpace (hd n)" "\<not> isWhiteSpace (last n)"
      "\<forall>u\<in>set w1. isWhiteSpace u" "\<forall>u\<in>set w2. isWhiteSpace u"
  proof -
    have none: "\<forall>u\<in>set ([]::jsstring). isWhiteSpace u" by simp
    have t: "trim (w1 @ n @ w2) = n" "trim n = n"
      using trim_padded[OF h(2,4,5,6,7)] trim_padded[OF h(2,4,5) none none] by simp_all
    have m1: "matchAll (pre @ LBRACE # w1 @ n @ w2 @ RBRACE # post) = (w1 @ n @ w2) # matchAll post"
      using h by (intro padded_matchAll)
    have m2: "matchAll (pre @ LBRACE # n @ RBRACE # post) = n # matchAll post"
      using padded_matchAll[OF h(1,2,3) none none, of post] by simp
    have r1: "replace (replacer values) (pre @ LBRACE # w1 @ n @ w2 @ RBRACE # post)
         = pre @ replacer values (LBRACE # w1 @ n @ w2 @ [RBRACE]) (w1 @ n @ w2)
           @ replace (replacer values) post"
      using h by (intro padded_replace)
    have r2: "replace (replacer values) (pre @ LBRACE # n @ RBRACE # post)
         = pre @ replacer values (LBRACE # n @ [RBRACE]) n @ replace (replacer values) post"
      using padded_replace[OF h(1,2,3) none none, of "replacer values" post] by simp
    have k: "replacer values (LBRACE # w1 @ n @ w2 @ [RBRACE]) (w1 @ n @ w2)
         = replacer values (LBRACE # n @ [RBRACE]) n"
      using t by (intro replacer_key) simp
    show ?thesis
      by (simp add: referenceNames_def extractVariables_def applyVariables_def m1 m2 r1 r2 k t)
  qed
  from ex gen show ?thesis by blast
qed

theorem names_are_trimmed_witness:
  "LBRACE \<notin> set (js ''Hi '') \<and> js ''first name'' \<noteq> [] \<and> RBRACE \<notin> set (js ''first name'')
   \<and> \<not> isWhiteSpace (hd (js ''first name'')) \<and> \<not> isWhiteSpace (last (js ''first name''))
   \<and> list_all isWhiteSpace (js '' '') \<and> list_all isWhiteSpace (js ''  '')
   \<and> referenceNames (js ''Hi '' @ LBRACE # js '' '' @ js ''first name'' @ js ''  '' @ RBRACE # js ''!'')
       = js ''first name'' # referenceNames (js ''!'')
   \<and> applyVariables (js ''Hi '' @ LBRACE # js '' '' @ js ''first name'' @ js ''  '' @ RBRACE # js ''!'') Map.empty
       = applyVariables (js ''Hi '' @ LBRACE # js ''first name'' @ RBRACE # js ''!'') Map.empty"
proof -
  have h: "LBRACE \<notin> set (js ''Hi '') \<and> js ''first name'' \<noteq> [] \<and> RBRACE \<notin> set (js ''first name'')
   \<and> \<not> isWhiteSpace (hd (js ''first name'')) \<and> \<not> isWhiteSpace (last (js ''first name''))
   \<and> list_all isWhiteSpace (js '' '') \<and> list_all isWhiteSpace (js ''  '')"
    by code_simp
  show ?thesis
    using h names_are_trimmed [of "js ''Hi ''" "js ''first name''" "js '' ''" "js ''  ''" "js ''!''" Map.empty]
    unfolding list_all_iff by blast
qed

section \<open>Dangling braces\<close>

lemma no_open_no_match: "LBRACE \<notin> set t \<Longrightarrow> matchAll t = []"
  using matchAll_skip[of t "[]"] by simp

lemma weave_head: "weave ((c # l) # ls) spans = c # weave (l # ls) spans"
  by (cases spans) simp_all

lemma replace_weave:
  "\<exists>literals. length literals = Suc (length (matchAll t))
     \<and> t = weave literals (map (\<lambda>g. LBRACE # g @ [RBRACE]) (matchAll t))
     \<and> replace f t = weave literals (map (\<lambda>g. f (LBRACE # g @ [RBRACE]) g) (matchAll t))"
proof (induction t rule: matchAll.induct)
  case 1
  have "length [[]::jsstring] = Suc (length (matchAll []))
     \<and> [] = weave [[]] (map (\<lambda>g. LBRACE # g @ [RBRACE]) (matchAll []))
     \<and> replace f [] = weave [[]] (map (\<lambda>g. f (LBRACE # g @ [RBRACE]) g) (matchAll []))"
    by simp
  then show ?case by blast
next
  case (2 c cs)
  show ?case
  proof (cases "variablePattern (c # cs)")
    case None
    then have m: "matchAll (c # cs) = matchAll cs" and r: "replace f (c # cs) = c # replace f cs"
      by (simp_all add: matchAll.simps replace.simps)
    from 2(1)[OF None] obtain literals
      where len: "length literals = Suc (length (matchAll cs))"
        and t: "cs = weave literals (map (\<lambda>g. LBRACE # g @ [RBRACE]) (matchAll cs))"
        and o: "replace f cs = weave literals (map (\<lambda>g. f (LBRACE # g @ [RBRACE]) g) (matchAll cs))"
      by blast
    from len obtain l ls where ls: "literals = l # ls" by (cases literals) auto
    let ?new = "(c # l) # ls"
    have "length ?new = Suc (length (matchAll (c # cs)))"
      using len ls m by simp
    moreover have "c # cs = weave ?new (map (\<lambda>g. LBRACE # g @ [RBRACE]) (matchAll (c # cs)))"
      using t ls m by (simp add: weave_head)
    moreover have "replace f (c # cs)
        = weave ?new (map (\<lambda>g. f (LBRACE # g @ [RBRACE]) g) (matchAll (c # cs)))"
      using o ls m r by (simp add: weave_head)
    ultimately show ?thesis by blast
  next
    case (Some p)
    obtain g rest where p: "p = (g, rest)" by (cases p)
    with Some have m: "matchAll (c # cs) = g # matchAll rest"
      and r: "replace f (c # cs) = f (LBRACE # g @ [RBRACE]) g @ replace f rest"
      by (simp_all add: matchAll.simps replace.simps)
    have tc: "c # cs = LBRACE # g @ RBRACE # rest"
      using Some p vp_SomeD by blast
    from 2(2)[OF Some p[symmetric]] obtain literals
      where len: "length literals = Suc (length (matchAll rest))"
        and t: "rest = weave literals (map (\<lambda>g. LBRACE # g @ [RBRACE]) (matchAll rest))"
        and o: "replace f rest = weave literals (map (\<lambda>g. f (LBRACE # g @ [RBRACE]) g) (matchAll rest))"
      by blast
    let ?new = "[] # literals"
    have "length ?new = Suc (length (matchAll (c # cs)))"
      using len m by simp
    moreover have "c # cs = weave ?new (map (\<lambda>g. LBRACE # g @ [RBRACE]) (matchAll (c # cs)))"
      using t m tc by simp
    moreover have "replace f (c # cs)
        = weave ?new (map (\<lambda>g. f (LBRACE # g @ [RBRACE]) g) (matchAll (c # cs)))"
      using o m r by simp
    ultimately show ?thesis by blast
  qed
qed

text \<open>
  Claim C4. \<open>applyVariables\<close> rewrites matches of the pattern only, the same matches
  \<open>extractVariables\<close> reads (a brace is dangling where the pattern finds no match; an
  opening brace with a closing brace somewhere behind it starts one, unless the closing brace
  comes next). For every template: it is a sequence of literal pieces with the matches
  between them, and the result is the same pieces with the replacements between them, so
  every brace outside a match stays where it is. Step by step: a code unit that is no opening
  brace is copied, the pair \<^verbatim>\<open>{}\<close> is copied, and behind a match the rest is treated
  as a template of its own, so a stray closing brace behind a reference stays:
  \<open>apply("{a}} and }", {a: "x"}) = "x} and }"\<close>. A template without a match comes back
  as it is; text behind the last closing brace, an unterminated opening brace included, is
  copied as it stands and gives nothing to the extraction; text before the first opening
  brace is copied as it stands; \<open>apply("literal { unclosed", {}) = "literal { unclosed"\<close>.
\<close>

theorem dangling_braces_verbatim:
  "(matchAll t = [] \<longrightarrow> applyVariables t values = t)
   \<and> (RBRACE \<notin> set s \<longrightarrow>
        applyVariables (t @ s) values = applyVariables t values @ s
        \<and> extractVariables (t @ s) = extractVariables t)
   \<and> (RBRACE \<notin> set s \<longrightarrow>
        applyVariables (LBRACE # s) values = LBRACE # s \<and> extractVariables (LBRACE # s) = [])
   \<and> (LBRACE \<notin> set t \<longrightarrow> applyVariables t values = t \<and> extractVariables t = [])
   \<and> (LBRACE \<notin> set t \<longrightarrow> applyVariables (t @ s) values = t @ applyVariables s values)
   \<and> applyVariables (js ''literal { unclosed'') Map.empty = js ''literal { unclosed''
   \<and> extractVariables (js ''literal { unclosed'') = []
   \<and> (c \<noteq> LBRACE \<longrightarrow> applyVariables (c # t) values = c # applyVariables t values)
   \<and> applyVariables (LBRACE # RBRACE # t) values = LBRACE # RBRACE # applyVariables t values
   \<and> (g \<noteq> [] \<and> RBRACE \<notin> set g \<longrightarrow>
        applyVariables (LBRACE # g @ RBRACE # t) values
        = replacer values (LBRACE # g @ [RBRACE]) g @ applyVariables t values)
   \<and> (\<exists>literals. length literals = Suc (length (matchAll t))
        \<and> t = weave literals (map (\<lambda>g. LBRACE # g @ [RBRACE]) (matchAll t))
        \<and> applyVariables t values
            = weave literals (map (\<lambda>g. replacer values (LBRACE # g @ [RBRACE]) g) (matchAll t)))
   \<and> applyVariables (js ''{a}} and }'') [js ''a'' \<mapsto> js ''x''] = js ''x} and }''"
proof -
  have e: "LBRACE \<notin> set t \<longrightarrow> applyVariables (t @ s) values = t @ applyVariables s values"
    by (simp add: applyVariables_def replace_skip)
  have ex: "applyVariables (js ''literal { unclosed'') Map.empty = js ''literal { unclosed''"
    "extractVariables (js ''literal { unclosed'') = []"
    "applyVariables (js ''{a}} and }'') [js ''a'' \<mapsto> js ''x''] = js ''x} and }''"
    by code_simp+
  have a: "matchAll t = [] \<longrightarrow> applyVariables t values = t"
    by (simp add: applyVariables_def replace_no_match)
  have b: "RBRACE \<notin> set s \<longrightarrow>
        applyVariables (t @ s) values = applyVariables t values @ s
        \<and> extractVariables (t @ s) = extractVariables t"
    by (simp add: applyVariables_def extractVariables_def replace_append matchAll_append)
  have c: "RBRACE \<notin> set s \<longrightarrow>
        applyVariables (LBRACE # s) values = LBRACE # s \<and> extractVariables (LBRACE # s) = []"
    by (simp add: applyVariables_def extractVariables_def replace_dangling matchAll_dangling)
  have d: "LBRACE \<notin> set t \<longrightarrow> applyVariables t values = t \<and> extractVariables t = []"
    by (simp add: applyVariables_def extractVariables_def replace_no_match no_open_no_match)
  have h1: "c \<noteq> LBRACE \<longrightarrow> applyVariables (c # t) values = c # applyVariables t values"
    by (simp add: applyVariables_def replace_other)
  have h2: "applyVariables (LBRACE # RBRACE # t) values = LBRACE # RBRACE # applyVariables t values"
    by (simp add: applyVariables_def replace_empty_pair)
  have h3: "g \<noteq> [] \<and> RBRACE \<notin> set g \<longrightarrow>
        applyVariables (LBRACE # g @ RBRACE # t) values
        = replacer values (LBRACE # g @ [RBRACE]) g @ applyVariables t values"
    by (simp add: applyVariables_def replace_match)
  have w: "\<exists>literals. length literals = Suc (length (matchAll t))
        \<and> t = weave literals (map (\<lambda>g. LBRACE # g @ [RBRACE]) (matchAll t))
        \<and> applyVariables t values
            = weave literals (map (\<lambda>g. replacer values (LBRACE # g @ [RBRACE]) g) (matchAll t))"
    unfolding applyVariables_def by (rule replace_weave)
  from ex a b c d e h1 h2 h3 w show ?thesis by blast
qed

theorem dangling_braces_verbatim_witness:
  "matchAll (js ''a } b { c'') = [] \<and> RBRACE \<notin> set (js '' { rest'') \<and> LBRACE \<notin> set (js ''a } b'')
   \<and> applyVariables (js ''a } b { c'') [js ''c'' \<mapsto> js ''x''] = js ''a } b { c''
   \<and> applyVariables (js ''{c}'' @ js '' { rest'') [js ''c'' \<mapsto> js ''x'']
       = applyVariables (js ''{c}'') [js ''c'' \<mapsto> js ''x''] @ js '' { rest''
   \<and> extractVariables (js ''{c}'' @ js '' { rest'') = extractVariables (js ''{c}'')
   \<and> applyVariables (LBRACE # js '' { rest'') [js ''c'' \<mapsto> js ''x''] = LBRACE # js '' { rest''
   \<and> applyVariables (js ''a } b'') [js ''c'' \<mapsto> js ''x''] = js ''a } b''
   \<and> applyVariables (js ''a } b'' @ js '' { rest'') [js ''c'' \<mapsto> js ''x'']
       = js ''a } b'' @ applyVariables (js '' { rest'') [js ''c'' \<mapsto> js ''x'']
   \<and> RBRACE \<noteq> LBRACE \<and> js ''c'' \<noteq> [] \<and> RBRACE \<notin> set (js ''c'')
   \<and> applyVariables (RBRACE # js ''{c}'') [js ''c'' \<mapsto> js ''x'']
       = RBRACE # applyVariables (js ''{c}'') [js ''c'' \<mapsto> js ''x'']
   \<and> applyVariables (LBRACE # js ''c'' @ RBRACE # js ''} and }'') [js ''c'' \<mapsto> js ''x'']
       = replacer [js ''c'' \<mapsto> js ''x''] (LBRACE # js ''c'' @ [RBRACE]) (js ''c'')
         @ applyVariables (js ''} and }'') [js ''c'' \<mapsto> js ''x'']
   \<and> applyVariables (js ''} and }'') [js ''c'' \<mapsto> js ''x''] = js ''} and }''"
proof -
  have k: "RBRACE \<noteq> LBRACE \<and> js ''c'' \<noteq> [] \<and> RBRACE \<notin> set (js ''c'')
     \<and> LBRACE \<notin> set (js ''} and }'')"
    by code_simp
  have h: "matchAll (js ''a } b { c'') = [] \<and> RBRACE \<notin> set (js '' { rest'') \<and> LBRACE \<notin> set (js ''a } b'')"
    by code_simp
  show ?thesis
    using h k
      dangling_braces_verbatim [of "js ''a } b { c''" "[js ''c'' \<mapsto> js ''x'']" "js '' { rest''"]
      dangling_braces_verbatim [of "js ''{c}''" "[js ''c'' \<mapsto> js ''x'']" "js '' { rest''" RBRACE]
      dangling_braces_verbatim [of "js ''a } b''" "[js ''c'' \<mapsto> js ''x'']" "js '' { rest''"]
      dangling_braces_verbatim [of "js ''} and }''" "[js ''c'' \<mapsto> js ''x'']" "[]" RBRACE "js ''c''"]
    by blast
qed

section \<open>Distinct names in first-occurrence order\<close>

lemma extractVariables_foldl:
  "extractVariables t = foldl setAdd [] (filter (\<lambda>n. n \<noteq> []) (referenceNames t))"
  by (simp add: extractVariables_def referenceNames_def collectNames_foldl)

lemma foldl_setAdd_first_occurrence:
  assumes r: "r = foldl setAdd [] ns" and ij: "i < j" "j < length r"
  shows "\<exists>pre post. ns = pre @ (r ! i) # post \<and> r ! i \<notin> set pre \<and> r ! j \<notin> set pre"
proof -
  have d: "distinct r" using r by (simp add: foldl_setAdd_distinct)
  have "r ! i \<in> set ns"
    using r ij foldl_setAdd_set[of "[]" ns] nth_mem[of i r] by simp
  then obtain pre post where split: "ns = pre @ (r ! i) # post" and fresh: "r ! i \<notin> set pre"
    using split_list_first[of "r ! i" ns] by blast
  let ?p = "foldl setAdd [] pre"
  have "r = foldl setAdd ?p ((r ! i) # post)"
    using r split by simp
  then obtain ext where ext: "r = ?p @ ext"
    using foldl_setAdd_prefix[of ?p "(r ! i) # post"] by auto
  have sp: "set ?p = set pre" by (simp add: foldl_setAdd_set)
  have "r ! j \<notin> set pre"
  proof
    assume "r ! j \<in> set pre"
    with sp have "r ! j \<in> set ?p" by simp
    then obtain k where k: "k < length ?p" "?p ! k = r ! j"
      unfolding in_set_conv_nth by blast
    with ext have "r ! k = r ! j" "k < length r"
      by (simp_all add: nth_append)
    with d ij have "k = j" by (simp add: nth_eq_iff_index_eq)
    have "\<not> i < length ?p"
    proof
      assume "i < length ?p"
      with ext have "r ! i \<in> set ?p" by (simp add: nth_append)
      with sp fresh show False by simp
    qed
    with k \<open>k = j\<close> ij show False by simp
  qed
  with split fresh show ?thesis by blast
qed

text \<open>
  Claim C1. For every template, \<open>extractVariables\<close> returns the distinct trimmed names of
  its references in the order of their first occurrence: the result has no duplicates, it
  holds exactly the non-empty trimmed names, and of two entries the earlier one occurs in the
  template, read from the left, before either of them has occurred. So a name that comes
  twice gives one entry, at the place of its first occurrence:
  \<open>extract("{topic} and {topic}") = ["topic"]\<close>.
\<close>

theorem extractVariables_first_occurrence_order:
  "distinct (extractVariables t)
   \<and> set (extractVariables t) = {n \<in> set (referenceNames t). n \<noteq> []}
   \<and> (i < j \<and> j < length (extractVariables t) \<longrightarrow>
        (\<exists>pre post. filter (\<lambda>n. n \<noteq> []) (referenceNames t) = pre @ (extractVariables t ! i) # post
           \<and> extractVariables t ! i \<notin> set pre \<and> extractVariables t ! j \<notin> set pre))
   \<and> extractVariables (js ''{topic} and {topic}'') = [js ''topic'']"
proof -
  have ex: "extractVariables (js ''{topic} and {topic}'') = [js ''topic'']"
    by code_simp
  have d: "distinct (extractVariables t)"
    by (simp add: extractVariables_foldl foldl_setAdd_distinct)
  have s: "set (extractVariables t) = {n \<in> set (referenceNames t). n \<noteq> []}"
    by (auto simp: extractVariables_foldl foldl_setAdd_set)
  have o: "\<exists>pre post. filter (\<lambda>n. n \<noteq> []) (referenceNames t) = pre @ (extractVariables t ! i) # post
           \<and> extractVariables t ! i \<notin> set pre \<and> extractVariables t ! j \<notin> set pre"
    if "i < j" "j < length (extractVariables t)"
    using foldl_setAdd_first_occurrence[OF extractVariables_foldl that] .
  from ex d s o show ?thesis by blast
qed

theorem extractVariables_first_occurrence_order_witness:
  "(0::nat) < 1 \<and> 1 < length (extractVariables (js ''{b} { a }{b}{a}{c}''))
   \<and> extractVariables (js ''{b} { a }{b}{a}{c}'') = [js ''b'', js ''a'', js ''c'']
   \<and> referenceNames (js ''{b} { a }{b}{a}{c}'') = [js ''b'', js ''a'', js ''b'', js ''a'', js ''c'']
   \<and> distinct (extractVariables (js ''{b} { a }{b}{a}{c}''))
   \<and> (\<exists>pre post. filter (\<lambda>n. n \<noteq> []) (referenceNames (js ''{b} { a }{b}{a}{c}''))
          = pre @ (extractVariables (js ''{b} { a }{b}{a}{c}'') ! 0) # post
        \<and> extractVariables (js ''{b} { a }{b}{a}{c}'') ! 0 \<notin> set pre
        \<and> extractVariables (js ''{b} { a }{b}{a}{c}'') ! 1 \<notin> set pre)"
proof -
  have e: "extractVariables (js ''{b} { a }{b}{a}{c}'') = [js ''b'', js ''a'', js ''c'']"
    by code_simp
  have n: "referenceNames (js ''{b} { a }{b}{a}{c}'') = [js ''b'', js ''a'', js ''b'', js ''a'', js ''c'']"
    by code_simp
  have h: "(0::nat) < 1 \<and> 1 < length (extractVariables (js ''{b} { a }{b}{a}{c}''))"
    by (simp add: e)
  show ?thesis
    using h e n extractVariables_first_occurrence_order [of "js ''{b} { a }{b}{a}{c}''" 0 1]
    by blast
qed

section \<open>Substitution, span by span\<close>

text \<open>
  Claim C2, as amended. A matched brace span is an opening brace, at least one code unit other
  than a closing brace, and the closing brace. For every template and every value mapping,
  \<open>applyVariables\<close> replaces each matched span, braces included, by the mapping's value for
  the trimmed interior, and by the empty string when the mapping has no entry for that name
  (names of members of \<^verbatim>\<open>Object.prototype\<close> aside, on which nothing is said here). A
  blank interior is looked up under the empty name like any other. The pair \<^verbatim>\<open>{}\<close>
  with nothing inside is no matched span: it is copied as it stands, as is every other code
  unit outside the spans. The value depends on the trimmed name only, so every occurrence of
  a variable is replaced alike. In particular \<open>apply("Hi {name}", {}) = "Hi "\<close> and
  \<open>apply("{a} and {a}", {a: "x"}) = "x and x"\<close>. The equations describe the result from the
  head of the template on, and so all of it.
\<close>

theorem applyVariables_span_by_span:
  "applyVariables [] values = []
   \<and> (c \<noteq> LBRACE \<longrightarrow> applyVariables (c # t) values = c # applyVariables t values)
   \<and> (g \<noteq> [] \<and> RBRACE \<notin> set g \<and> values (trim g) = Some v \<longrightarrow>
        applyVariables (LBRACE # g @ RBRACE # t) values = v @ applyVariables t values)
   \<and> (g \<noteq> [] \<and> RBRACE \<notin> set g \<and> values (trim g) = None \<and> trim g \<notin> set objectPrototypeKeys \<longrightarrow>
        applyVariables (LBRACE # g @ RBRACE # t) values = applyVariables t values)
   \<and> applyVariables (LBRACE # RBRACE # t) values = LBRACE # RBRACE # applyVariables t values
   \<and> (RBRACE \<notin> set t \<longrightarrow> applyVariables (LBRACE # t) values = LBRACE # t)
   \<and> applyVariables (js ''Hi {name}'') Map.empty = js ''Hi ''
   \<and> applyVariables (js ''Hi {name}'') [js ''name'' \<mapsto> js ''John''] = js ''Hi John''
   \<and> applyVariables (js ''{a} and {a}'') [js ''a'' \<mapsto> js ''x''] = js ''x and x''"
proof -
  have ex: "applyVariables (js ''Hi {name}'') Map.empty = js ''Hi ''"
    "applyVariables (js ''Hi {name}'') [js ''name'' \<mapsto> js ''John''] = js ''Hi John''"
    "applyVariables (js ''{a} and {a}'') [js ''a'' \<mapsto> js ''x''] = js ''x and x''"
    by code_simp+
  have a: "applyVariables [] values = []"
    by (simp add: applyVariables_def)
  have b: "c \<noteq> LBRACE \<longrightarrow> applyVariables (c # t) values = c # applyVariables t values"
    by (simp add: applyVariables_def replace_other)
  have c: "g \<noteq> [] \<and> RBRACE \<notin> set g \<and> values (trim g) = Some v \<longrightarrow>
        applyVariables (LBRACE # g @ RBRACE # t) values = v @ applyVariables t values"
    by (simp add: applyVariables_def replace_match replacer_own)
  have d: "g \<noteq> [] \<and> RBRACE \<notin> set g \<and> values (trim g) = None \<and> trim g \<notin> set objectPrototypeKeys \<longrightarrow>
        applyVariables (LBRACE # g @ RBRACE # t) values = applyVariables t values"
    by (simp add: applyVariables_def replace_match replacer_absent)
  have e: "applyVariables (LBRACE # RBRACE # t) values = LBRACE # RBRACE # applyVariables t values"
    by (simp add: applyVariables_def replace_empty_pair)
  have f: "RBRACE \<notin> set t \<longrightarrow> applyVariables (LBRACE # t) values = LBRACE # t"
    by (simp add: applyVariables_def replace_dangling)
  from ex a b c d e f show ?thesis by blast
qed

theorem applyVariables_span_by_span_witness:
  "js ''name'' \<noteq> [] \<and> RBRACE \<notin> set (js ''name'')
   \<and> [js ''name'' \<mapsto> js ''John''] (trim (js ''name'')) = Some (js ''John'')
   \<and> [js ''name'' \<mapsto> js ''John''] (trim (js '' other '')) = None
   \<and> trim (js '' other '') \<notin> set objectPrototypeKeys
   \<and> RBRACE \<notin> set (js '' open'')
   \<and> applyVariables (LBRACE # js ''name'' @ RBRACE # js ''!'') [js ''name'' \<mapsto> js ''John'']
       = js ''John'' @ applyVariables (js ''!'') [js ''name'' \<mapsto> js ''John'']
   \<and> applyVariables (LBRACE # js '' other '' @ RBRACE # js ''!'') [js ''name'' \<mapsto> js ''John'']
       = applyVariables (js ''!'') [js ''name'' \<mapsto> js ''John'']
   \<and> applyVariables (of_char CHR ''!'' # []) [js ''name'' \<mapsto> js ''John'']
       = of_char CHR ''!'' # applyVariables [] [js ''name'' \<mapsto> js ''John'']
   \<and> applyVariables (LBRACE # js '' open'') [js ''name'' \<mapsto> js ''John''] = LBRACE # js '' open''"
proof -
  have h: "js ''name'' \<noteq> [] \<and> RBRACE \<notin> set (js ''name'')
   \<and> [js ''name'' \<mapsto> js ''John''] (trim (js ''name'')) = Some (js ''John'')
   \<and> js '' other '' \<noteq> [] \<and> RBRACE \<notin> set (js '' other '')
   \<and> [js ''name'' \<mapsto> js ''John''] (trim (js '' other '')) = None
   \<and> trim (js '' other '') \<notin> set objectPrototypeKeys
   \<and> RBRACE \<notin> set (js '' open'')
   \<and> (of_char CHR ''!'' :: 16 word) \<noteq> LBRACE"
    by code_simp
  show ?thesis
    using h
      applyVariables_span_by_span [of "[js ''name'' \<mapsto> js ''John'']" "of_char CHR ''!''" "[]"
        "js ''name''" "js ''John''"]
      applyVariables_span_by_span [of "[js ''name'' \<mapsto> js ''John'']" "of_char CHR ''!''" "js ''!''"
        "js ''name''" "js ''John''"]
      applyVariables_span_by_span [of "[js ''name'' \<mapsto> js ''John'']" "of_char CHR ''!''" "js ''!''"
        "js '' other ''" "js ''John''"]
      applyVariables_span_by_span [of "[js ''name'' \<mapsto> js ''John'']" "of_char CHR ''!''" "js '' open''"
        "js ''name''" "js ''John''"]
    by simp
qed

text \<open>
  The claim as first stated replaces every pair of braces whose trimmed interior is empty by
  the empty string. The pattern asks for at least one code unit between the braces, so the
  pair \<^verbatim>\<open>{}\<close> is not replaced: \<open>apply("a{}b", {})\<close> is \<open>"a{}b"\<close> and not
  \<open>"ab"\<close>, while the blank pair in \<open>apply("a{ }b", {})\<close> is replaced.
\<close>

theorem empty_pair_is_copied:
  "trim [] = []
   \<and> applyVariables (js ''a{}b'') Map.empty = js ''a{}b''
   \<and> applyVariables (js ''a{}b'') Map.empty \<noteq> js ''ab''
   \<and> applyVariables (js ''a{ }b'') Map.empty = js ''ab''"
  by code_simp

text \<open>
  Nor is an empty trimmed name replaced by the empty string whatever the mapping: the source
  looks the empty name up like any other, so with an entry for the empty name a blank
  reference is replaced by that entry's value.
\<close>

theorem empty_name_is_looked_up:
  "trim (js '' '') = []
   \<and> applyVariables (js ''{ }'') [js '''' \<mapsto> js ''x''] = js ''x''
   \<and> js ''x'' \<noteq> []"
  by code_simp

section \<open>Keys that are not entries\<close>

text \<open>
  Claim C3 says that both operations are total and that a key without an entry in the
  mapping reads as the empty string. Both functions are total (they are defined for every
  template and every mapping, and the source has no \<^verbatim>\<open>throw\<close>). But the read
  \<^verbatim>\<open>values[key] ?? ''\<close> also finds the members a plain object inherits: for the
  empty mapping \<^verbatim>\<open>{}\<close> the reference \<^verbatim>\<open>{constructor}\<close> is replaced by the
  text of the function \<^verbatim>\<open>Object\<close> and not by the empty string.
\<close>

theorem inherited_key_is_not_empty:
  "Map.empty (js ''constructor'') = None
   \<and> applyVariables (js ''Hi {constructor}'') Map.empty
       = js ''Hi function Object() { [native code] }''
   \<and> applyVariables (js ''Hi {constructor}'') Map.empty \<noteq> js ''Hi ''"
  by code_simp

section \<open>Sentinel values\<close>

lemma occurrences_append_ge: "occurrences p b \<le> occurrences p (a @ b)"
  by (induction a) simp_all

lemma occurrences_self_append:
  assumes "p \<noteq> []"
  shows "Suc (occurrences p b) \<le> occurrences p (p @ b)"
proof -
  obtain c cs where p: "p = c # cs" using assms by (cases p) auto
  have "occurrences p (p @ b) = 1 + occurrences p (cs @ b)"
    using p by simp
  moreover have "occurrences p b \<le> occurrences p (cs @ b)"
    by (rule occurrences_append_ge)
  ultimately show ?thesis by simp
qed

lemma references_le_occurrences:
  assumes v: "values n = Some s" and s: "s \<noteq> []"
  shows "length (filter (\<lambda>m. m = n) (map trim (matchAll t)))
         \<le> occurrences s (replace (replacer values) t)"
proof (induction t rule: matchAll.induct)
  case 1
  show ?case by simp
next
  case (2 c cs)
  show ?case
  proof (cases "variablePattern (c # cs)")
    case None
    then have "matchAll (c # cs) = matchAll cs"
      and "replace (replacer values) (c # cs) = c # replace (replacer values) cs"
      by (simp_all add: matchAll.simps replace.simps)
    with 2(1)[OF None] show ?thesis by simp
  next
    case (Some p)
    obtain g r where p: "p = (g, r)" by (cases p)
    let ?out = "replace (replacer values) r"
    have m: "matchAll (c # cs) = g # matchAll r"
      and rp: "replace (replacer values) (c # cs)
               = replacer values (LBRACE # g @ [RBRACE]) g @ ?out"
      using Some p by (simp_all add: matchAll.simps replace.simps)
    have ih: "length (filter (\<lambda>m. m = n) (map trim (matchAll r))) \<le> occurrences s ?out"
      using 2(2)[OF Some p[symmetric]] .
    show ?thesis
    proof (cases "trim g = n")
      case True
      then have "replacer values (LBRACE # g @ [RBRACE]) g = s"
        using v by (simp add: replacer_own)
      then have "Suc (occurrences s ?out) \<le> occurrences s (replace (replacer values) (c # cs))"
        using rp occurrences_self_append[OF s] by simp
      with ih m True show ?thesis by simp
    next
      case False
      have "occurrences s ?out \<le> occurrences s (replace (replacer values) (c # cs))"
        using rp occurrences_append_ge by simp
      with ih m False show ?thesis by simp
    qed
  qed
qed

lemma occurrences_le_heads:
  "occurrences (c # s') xs \<le> length (filter (\<lambda>u. u = c) xs)"
proof (induction xs)
  case Nil
  show ?case by simp
next
  case (Cons x xs)
  have "take (length (c # s')) (x # xs) = c # s' \<Longrightarrow> x = c"
    by simp
  with Cons show ?case by auto
qed

lemma heads_of_replace:
  assumes "c \<notin> set t"
    and "\<And>g. g \<in> set (matchAll t) \<Longrightarrow>
           length (filter (\<lambda>u. u = c) (f (LBRACE # g @ [RBRACE]) g)) = (if trim g = n then 1 else 0)"
  shows "length (filter (\<lambda>u. u = c) (replace f t))
         = length (filter (\<lambda>m. m = n) (map trim (matchAll t)))"
  using assms
proof (induction t rule: matchAll.induct)
  case 1
  show ?case by simp
next
  case (2 x cs)
  show ?case
  proof (cases "variablePattern (x # cs)")
    case None
    then have m: "matchAll (x # cs) = matchAll cs"
      and r: "replace f (x # cs) = x # replace f cs"
      by (simp_all add: matchAll.simps replace.simps)
    have "x \<noteq> c" "c \<notin> set cs" using 2(3) by auto
    moreover have "length (filter (\<lambda>u. u = c) (replace f cs))
         = length (filter (\<lambda>m. m = n) (map trim (matchAll cs)))"
      using 2(1)[OF None \<open>c \<notin> set cs\<close>] 2(4) m by simp
    ultimately show ?thesis using m r by simp
  next
    case (Some p)
    obtain g r where p: "p = (g, r)" by (cases p)
    have m: "matchAll (x # cs) = g # matchAll r"
      and rp: "replace f (x # cs) = f (LBRACE # g @ [RBRACE]) g @ replace f r"
      using Some p by (simp_all add: matchAll.simps replace.simps)
    have "x # cs = LBRACE # g @ RBRACE # r"
      using Some p vp_SomeD by blast
    then have "set r \<subseteq> set (x # cs)" by auto
    with 2(3) have cr: "c \<notin> set r" by blast
    have ih: "length (filter (\<lambda>u. u = c) (replace f r))
         = length (filter (\<lambda>m. m = n) (map trim (matchAll r)))"
      using 2(2)[OF Some p[symmetric] cr] 2(4) m by simp
    have "length (filter (\<lambda>u. u = c) (f (LBRACE # g @ [RBRACE]) g)) = (if trim g = n then 1 else 0)"
      using 2(4) m by simp
    with ih m rp show ?thesis by simp
  qed
qed

lemma empty_name_not_inherited: "[] \<notin> set objectPrototypeKeys"
  by (simp add: objectPrototypeKeys_def js_def)


text \<open>
  Claim C7, as amended. Let the mapping give every name of \<open>extractVariables t\<close> a
  non-empty value, different names different values. Then every such name has at least one
  reference in the template, and its value occurs in \<open>applyVariables t values\<close> at least as
  often as the template has references to the name (once for each reference, at least). The
  two counts are equal when the value is fresh: its first code unit occurs neither in the
  template, nor in the rest of the value, nor in the value of any other name the template
  refers to.
\<close>

theorem sentinels_appear_per_reference:
  assumes "\<forall>n\<in>set (extractVariables t). \<exists>s. values n = Some s \<and> s \<noteq> []"
    and "inj_on values (set (extractVariables t))"
    and "n \<in> set (extractVariables t)"
    and "values n = Some s"
  shows "1 \<le> referencesTo t n
         \<and> referencesTo t n \<le> occurrences s (applyVariables t values)
         \<and> (hd s \<notin> set t \<and> hd s \<notin> set (tl s)
              \<and> (\<forall>n'\<in>set (referenceNames t). n' \<noteq> n \<longrightarrow>
                    (\<forall>v. values n' = Some v \<longrightarrow> hd s \<notin> set v))
             \<longrightarrow> occurrences s (applyVariables t values) = referencesTo t n)"
proof -
  from assms(1,3,4) have s: "s \<noteq> []" by auto
  have "n \<in> set (referenceNames t)"
    using assms(3) by (simp add: extractVariables_set)
  then have "filter (\<lambda>m. m = n) (referenceNames t) \<noteq> []"
    by (auto simp: filter_empty_conv)
  then have one: "1 \<le> referencesTo t n"
    by (cases "filter (\<lambda>m. m = n) (referenceNames t)") (simp_all add: referencesTo_def)
  have ge: "referencesTo t n \<le> occurrences s (applyVariables t values)"
    using references_le_occurrences[of "values" n s t] assms(4) s
    by (simp add: referencesTo_def referenceNames_def applyVariables_def)
  have eq: "occurrences s (applyVariables t values) = referencesTo t n"
    if fresh: "hd s \<notin> set t" "hd s \<notin> set (tl s)"
      "\<forall>n'\<in>set (referenceNames t). n' \<noteq> n \<longrightarrow> (\<forall>v. values n' = Some v \<longrightarrow> hd s \<notin> set v)"
  proof -
    let ?c = "hd s"
    have sc: "s = ?c # tl s" using s by simp
    have each: "length (filter (\<lambda>u. u = ?c) (replacer values (LBRACE # g @ [RBRACE]) g))
                = (if trim g = n then 1 else 0)"
      if g: "g \<in> set (matchAll t)" for g
    proof (cases "trim g = n")
      case True
      then have "replacer values (LBRACE # g @ [RBRACE]) g = ?c # tl s"
        using assms(4) sc by (simp add: replacer_own)
      moreover have "filter (\<lambda>u. u = ?c) (tl s) = []"
        using fresh(2) by (auto simp: filter_empty_conv)
      ultimately show ?thesis using True by simp
    next
      case False
      have rn: "trim g \<in> set (referenceNames t)"
        using g by (simp add: referenceNames_def)
      show ?thesis
      proof (cases "values (trim g)")
        case None
        have "trim g \<notin> set (extractVariables t)"
          using assms(1) None by auto
        with rn have "trim g = []" by (simp add: extractVariables_set)
        then have "trim g \<notin> set objectPrototypeKeys"
          using empty_name_not_inherited by simp
        with None have "replacer values (LBRACE # g @ [RBRACE]) g = []"
          by (rule replacer_absent)
        with False show ?thesis by simp
      next
        case (Some v)
        then have "replacer values (LBRACE # g @ [RBRACE]) g = v"
          by (rule replacer_own)
        moreover have "?c \<notin> set v"
          using fresh(3) rn False Some by blast
        then have "filter (\<lambda>u. u = ?c) v = []"
          by (auto simp: filter_empty_conv)
        ultimately show ?thesis using False by simp
      qed
    qed
    have "length (filter (\<lambda>u. u = ?c) (replace (replacer values) t))
          = length (filter (\<lambda>m. m = n) (map trim (matchAll t)))"
      using fresh(1) each by (rule heads_of_replace)
    moreover have "occurrences s (replace (replacer values) t)
          \<le> length (filter (\<lambda>u. u = ?c) (replace (replacer values) t))"
      using occurrences_le_heads[of ?c "tl s"] sc by simp
    ultimately have "occurrences s (applyVariables t values) \<le> referencesTo t n"
      by (simp add: referencesTo_def referenceNames_def applyVariables_def)
    with ge show ?thesis by simp
  qed
  from one ge eq show ?thesis by blast
qed

theorem sentinels_appear_per_reference_witness:
  "extractVariables (js ''{a}-{b}-{a}'') = [js ''a'', js ''b'']
   \<and> referenceNames (js ''{a}-{b}-{a}'') = [js ''a'', js ''b'', js ''a'']
   \<and> [js ''a'' \<mapsto> js ''<1>'', js ''b'' \<mapsto> js ''[2]''] (js ''a'') = Some (js ''<1>'')
   \<and> [js ''a'' \<mapsto> js ''<1>'', js ''b'' \<mapsto> js ''[2]''] (js ''b'') = Some (js ''[2]'')
   \<and> js ''<1>'' \<noteq> [] \<and> js ''[2]'' \<noteq> [] \<and> js ''<1>'' \<noteq> js ''[2]''
   \<and> inj_on [js ''a'' \<mapsto> js ''<1>'', js ''b'' \<mapsto> js ''[2]''] (set (extractVariables (js ''{a}-{b}-{a}'')))
   \<and> hd (js ''<1>'') \<notin> set (js ''{a}-{b}-{a}'') \<and> hd (js ''<1>'') \<notin> set (tl (js ''<1>''))
   \<and> hd (js ''<1>'') \<notin> set (js ''[2]'')
   \<and> 1 \<le> referencesTo (js ''{a}-{b}-{a}'') (js ''a'')
   \<and> referencesTo (js ''{a}-{b}-{a}'') (js ''a'')
       \<le> occurrences (js ''<1>'') (applyVariables (js ''{a}-{b}-{a}'') [js ''a'' \<mapsto> js ''<1>'', js ''b'' \<mapsto> js ''[2]''])
   \<and> occurrences (js ''<1>'') (applyVariables (js ''{a}-{b}-{a}'') [js ''a'' \<mapsto> js ''<1>'', js ''b'' \<mapsto> js ''[2]''])
       = referencesTo (js ''{a}-{b}-{a}'') (js ''a'')"
proof -
  let ?V = "[js ''a'' \<mapsto> js ''<1>'', js ''b'' \<mapsto> js ''[2]'']"
  have e: "extractVariables (js ''{a}-{b}-{a}'') = [js ''a'', js ''b'']"
    and rn: "referenceNames (js ''{a}-{b}-{a}'') = [js ''a'', js ''b'', js ''a'']"
    by code_simp+
  have va: "?V (js ''a'') = Some (js ''<1>'')"
    and vb: "?V (js ''b'') = Some (js ''[2]'')"
    and ne: "js ''<1>'' \<noteq> [] \<and> js ''[2]'' \<noteq> [] \<and> js ''<1>'' \<noteq> js ''[2]''"
    and ab: "js ''[2]'' \<noteq> js ''<1>''" "js ''b'' \<noteq> js ''a''"
    and fr: "hd (js ''<1>'') \<notin> set (js ''{a}-{b}-{a}'') \<and> hd (js ''<1>'') \<notin> set (tl (js ''<1>''))
             \<and> hd (js ''<1>'') \<notin> set (js ''[2]'')"
    by code_simp+
  have h1: "\<forall>n\<in>set (extractVariables (js ''{a}-{b}-{a}'')). \<exists>s. ?V n = Some s \<and> s \<noteq> []"
    unfolding e using va vb ne by simp
  have h2: "inj_on ?V (set (extractVariables (js ''{a}-{b}-{a}'')))"
    unfolding e using ab by (simp add: inj_on_def)
  have h3: "js ''a'' \<in> set (extractVariables (js ''{a}-{b}-{a}''))"
    unfolding e by simp
  have f3: "\<forall>n'\<in>set (referenceNames (js ''{a}-{b}-{a}'')). n' \<noteq> js ''a'' \<longrightarrow>
              (\<forall>v. ?V n' = Some v \<longrightarrow> hd (js ''<1>'') \<notin> set v)"
    unfolding rn using vb fr by simp
  show ?thesis
    using e rn va vb ne h2 fr f3 sentinels_appear_per_reference [OF h1 h2 h3 va]
    by blast
qed

text \<open>
  Without freshness the two counts need not be equal, as the claim was first stated: the
  value may also occur in the text around the references. In \<^verbatim>\<open>x{v}\<close> with the
  value \<^verbatim>\<open>x\<close> for \<^verbatim>\<open>v\<close> there is one reference, and the value occurs twice
  in the result \<^verbatim>\<open>xx\<close>.
\<close>

theorem sentinel_count_exceeds_references:
  "extractVariables (js ''x{v}'') = [js ''v'']
   \<and> [js ''v'' \<mapsto> js ''x''] (js ''v'') = Some (js ''x'')
   \<and> js ''x'' \<noteq> []
   \<and> referencesTo (js ''x{v}'') (js ''v'') = 1
   \<and> applyVariables (js ''x{v}'') [js ''v'' \<mapsto> js ''x''] = js ''xx''
   \<and> occurrences (js ''x'') (applyVariables (js ''x{v}'') [js ''v'' \<mapsto> js ''x'']) = 2"
  by code_simp

section \<open>Pure transforms\<close>

lemma search_None: "search u = None \<Longrightarrow> matchAll u = [] \<and> replace f u = u"
proof (induction u)
  case Nil
  show ?case by simp
next
  case (Cons c cs)
  from Cons.prems have vp: "variablePattern (c # cs) = None" and "search cs = None"
    by (auto split: option.splits)
  with Cons.IH show ?case
    by (simp add: matchAll.simps replace.simps)
qed

lemma search_Some:
  "search u = Some (k, g, r) \<Longrightarrow>
   matchAll u = g # matchAll r
   \<and> replace f u = take k u @ f (LBRACE # g @ [RBRACE]) g @ replace f r
   \<and> r = drop (k + length g + 2) u \<and> k + length g + 2 \<le> length u"
proof (induction u arbitrary: k)
  case Nil
  then show ?case by simp
next
  case (Cons c cs)
  show ?case
  proof (cases "variablePattern (c # cs)")
    case None
    with Cons.prems obtain k' where k: "k = Suc k'" and s: "search cs = Some (k', g, r)"
      by (auto split: option.splits)
    from Cons.IH[OF s] None k show ?thesis
      by (simp add: matchAll.simps replace.simps)
  next
    case (Some p)
    with Cons.prems have k: "k = 0" and vp: "variablePattern (c # cs) = Some (g, r)"
      by auto
    from vp have "c # cs = LBRACE # g @ RBRACE # r"
      using vp_SomeD by blast
    with vp k show ?thesis
      by (simp add: matchAll.simps replace.simps)
  qed
qed

lemma regExpExec_None:
  assumes "regExpExec st rx s = (None, st')" "lastIndexes st rx \<le> length s"
  shows "search (drop (lastIndexes st rx) s) = None"
    and "st' = st\<lparr>lastIndexes := (lastIndexes st)(rx := 0)\<rparr>"
  using assms by (auto simp: regExpExec_def Let_def split: if_splits option.splits)

lemma regExpExec_Some:
  assumes "regExpExec st rx s = (Some (position, g), st')"
  shows "\<exists>k r. search (drop (lastIndexes st rx) s) = Some (k, g, r)
           \<and> position = lastIndexes st rx + k
           \<and> st' = st\<lparr>lastIndexes := (lastIndexes st)(rx := length s - length r)\<rparr>
           \<and> drop (length s - length r) s = r
           \<and> length s - length r \<le> length s"
proof -
  let ?i = "lastIndexes st rx"
  from assms obtain k r where i: "?i \<le> length s" and s: "search (drop ?i s) = Some (k, g, r)"
    and p: "position = ?i + k"
    and st': "st' = st\<lparr>lastIndexes := (lastIndexes st)(rx := length s - length r)\<rparr>"
    by (auto simp: regExpExec_def Let_def split: if_splits option.splits)
  from search_Some[OF s] have r: "r = drop (k + length g + 2) (drop ?i s)"
    and le: "k + length g + 2 \<le> length (drop ?i s)"
    by blast+
  from le i have "length r = length s - (?i + k + length g + 2)" "?i + k + length g + 2 \<le> length s"
    using r by simp_all
  then have "length s - length r = ?i + k + length g + 2" by simp
  then have "drop (length s - length r) s = r"
    using r by (simp add: add.commute add.left_commute)
  with s p st' show ?thesis by auto
qed

lemma loopBody_cells:
  "members (loopBody st v g) v
     = (if trim g \<noteq> [] then setAdd (members st v) (trim g) else members st v)"
  "a \<noteq> v \<Longrightarrow> members (loopBody st v g) a = members st a"
  "lastIndexes (loopBody st v g) = lastIndexes st"
  "nextObject (loopBody st v g) = nextObject st"
  by (simp_all add: loopBody_def Let_def)

lemma forOfMatches_result:
  "lastIndexes st m \<le> length s \<Longrightarrow>
   members (forOfMatches st m v s) v
     = collectNames (members st v) (matchAll (drop (lastIndexes st m) s))
   \<and> (\<forall>a. a \<noteq> v \<longrightarrow> members (forOfMatches st m v s) a = members st a)
   \<and> (\<forall>a. a \<noteq> m \<longrightarrow> lastIndexes (forOfMatches st m v s) a = lastIndexes st a)
   \<and> nextObject (forOfMatches st m v s) = nextObject st"
proof (induction st m v s rule: forOfMatches.induct)
  case (1 st m v s)
  let ?i = "lastIndexes st m"
  obtain x st' where e: "regExpExec st m s = (x, st')" by (cases "regExpExec st m s")
  show ?case
  proof (cases x)
    case None
    with e have f: "forOfMatches st m v s = st'" by simp
    from regExpExec_None[OF e[unfolded None] 1(2)]
    have n: "search (drop ?i s) = None"
      and st': "st' = st\<lparr>lastIndexes := (lastIndexes st)(m := 0)\<rparr>" by blast+
    from search_None[OF n] have "matchAll (drop ?i s) = []" by blast
    with f st' show ?thesis by simp
  next
    case (Some y)
    obtain position g where y: "y = (position, g)" by (cases y)
    with e Some have e': "regExpExec st m s = (Some (position, g), st')" by simp
    let ?b = "loopBody st' v g"
    from e' have f: "forOfMatches st m v s = forOfMatches ?b m v s" by simp
    from regExpExec_Some[OF e'] obtain k r
      where sr: "search (drop ?i s) = Some (k, g, r)"
        and st': "st' = st\<lparr>lastIndexes := (lastIndexes st)(m := length s - length r)\<rparr>"
        and dr: "drop (length s - length r) s = r"
        and le: "length s - length r \<le> length s"
      by blast
    have li: "lastIndexes ?b m = length s - length r"
      using st' by (simp add: loopBody_cells)
    have ih: "members (forOfMatches ?b m v s) v
                = collectNames (members ?b v) (matchAll (drop (lastIndexes ?b m) s))
              \<and> (\<forall>a. a \<noteq> v \<longrightarrow> members (forOfMatches ?b m v s) a = members ?b a)
              \<and> (\<forall>a. a \<noteq> m \<longrightarrow> lastIndexes (forOfMatches ?b m v s) a = lastIndexes ?b a)
              \<and> nextObject (forOfMatches ?b m v s) = nextObject ?b"
      using 1(1)[OF e[symmetric] Some y[symmetric]] li le by simp
    from search_Some[OF sr] have ma: "matchAll (drop ?i s) = g # matchAll r" by blast
    have mb: "members ?b v = (if trim g \<noteq> [] then setAdd (members st v) (trim g) else members st v)"
      using st' by (simp add: loopBody_cells)
    have "members (forOfMatches st m v s) v = collectNames (members st v) (matchAll (drop ?i s))"
      using f ih li dr ma mb by (simp add: Let_def)
    moreover have "\<forall>a. a \<noteq> v \<longrightarrow> members (forOfMatches st m v s) a = members st a"
      using f ih st' by (simp add: loopBody_cells)
    moreover have "\<forall>a. a \<noteq> m \<longrightarrow> lastIndexes (forOfMatches st m v s) a = lastIndexes st a"
      using f ih st' by (simp add: loopBody_cells)
    moreover have "nextObject (forOfMatches st m v s) = nextObject st"
      using f ih st' by (simp add: loopBody_cells)
    ultimately show ?thesis by blast
  qed
qed

lemma replaceLoop_result:
  "lastIndexes st rx \<le> length s \<Longrightarrow>
   fst (replaceLoop st rx s f) = replace f (drop (lastIndexes st rx) s)
   \<and> members (snd (replaceLoop st rx s f)) = members st
   \<and> (\<forall>a. a \<noteq> rx \<longrightarrow> lastIndexes (snd (replaceLoop st rx s f)) a = lastIndexes st a)
   \<and> nextObject (snd (replaceLoop st rx s f)) = nextObject st"
proof (induction st rx s f rule: replaceLoop.induct)
  case (1 st rx s f)
  let ?i = "lastIndexes st rx"
  obtain x st' where e: "regExpExec st rx s = (x, st')" by (cases "regExpExec st rx s")
  show ?case
  proof (cases x)
    case None
    with e have f: "replaceLoop st rx s f = (drop ?i s, st')" by (simp add: Let_def)
    from regExpExec_None[OF e[unfolded None] 1(2)]
    have n: "search (drop ?i s) = None"
      and st': "st' = st\<lparr>lastIndexes := (lastIndexes st)(rx := 0)\<rparr>" by blast+
    from search_None[OF n] have "replace f (drop ?i s) = drop ?i s" by blast
    with f st' show ?thesis by simp
  next
    case (Some y)
    obtain position g where y: "y = (position, g)" by (cases y)
    with e Some have e': "regExpExec st rx s = (Some (position, g), st')" by simp
    obtain out st'' where rl: "replaceLoop st' rx s f = (out, st'')"
      by (cases "replaceLoop st' rx s f")
    from e' rl have f: "replaceLoop st rx s f
        = (take (position - ?i) (drop ?i s) @ f (LBRACE # g @ [RBRACE]) g @ out, st'')"
      by (simp add: Let_def)
    from regExpExec_Some[OF e'] obtain k r
      where sr: "search (drop ?i s) = Some (k, g, r)"
        and pos: "position = ?i + k"
        and st': "st' = st\<lparr>lastIndexes := (lastIndexes st)(rx := length s - length r)\<rparr>"
        and dr: "drop (length s - length r) s = r"
        and le: "length s - length r \<le> length s"
      by blast
    have li: "lastIndexes st' rx = length s - length r"
      using st' by simp
    have ih: "fst (replaceLoop st' rx s f) = replace f (drop (lastIndexes st' rx) s)
              \<and> members (snd (replaceLoop st' rx s f)) = members st'
              \<and> (\<forall>a. a \<noteq> rx \<longrightarrow> lastIndexes (snd (replaceLoop st' rx s f)) a = lastIndexes st' a)
              \<and> nextObject (snd (replaceLoop st' rx s f)) = nextObject st'"
      using 1(1)[OF refl e[symmetric] Some y[symmetric]] li le by simp
    from search_Some[OF sr] have rp: "replace f (drop ?i s)
        = take k (drop ?i s) @ f (LBRACE # g @ [RBRACE]) g @ replace f r" by blast
    have "fst (replaceLoop st rx s f) = replace f (drop ?i s)"
      using f ih rl li dr rp pos by simp
    moreover have "members (snd (replaceLoop st rx s f)) = members st"
      using f ih rl st' by simp
    moreover have "\<forall>a. a \<noteq> rx \<longrightarrow> lastIndexes (snd (replaceLoop st rx s f)) a = lastIndexes st a"
      using f ih rl st' by simp
    moreover have "nextObject (snd (replaceLoop st rx s f)) = nextObject st"
      using f ih rl st' by simp
    ultimately show ?thesis by blast
  qed
qed

declare forOfMatches.simps [simp del]

declare replaceLoop.simps [simp del]

lemma extractVariables_call_result:
  "fst (extractVariables_call st t) = extractVariables t
   \<and> nextObject (snd (extractVariables_call st t)) = nextObject st + 3
   \<and> (\<forall>a. a < nextObject st \<longrightarrow>
         lastIndexes (snd (extractVariables_call st t)) a = lastIndexes st a
         \<and> members (snd (extractVariables_call st t)) a = members st a)"
proof -
  let ?n = "nextObject st"
  let ?st3 = "st\<lparr>lastIndexes := (lastIndexes st)(?n := 0, Suc ?n := 0),
                  members := (members st)(Suc (Suc ?n) := []),
                  nextObject := Suc (Suc (Suc ?n))\<rparr>"
  have call: "extractVariables_call st t
      = (members (forOfMatches ?st3 (Suc ?n) (Suc (Suc ?n)) t) (Suc (Suc ?n)),
         forOfMatches ?st3 (Suc ?n) (Suc (Suc ?n)) t)"
    by (simp add: extractVariables_call_def newRegExp_def newSet_def Let_def)
  have "lastIndexes ?st3 (Suc ?n) \<le> length t" by simp
  from forOfMatches_result[OF this, of "Suc (Suc ?n)"]
  have r: "members (forOfMatches ?st3 (Suc ?n) (Suc (Suc ?n)) t) (Suc (Suc ?n))
             = collectNames [] (matchAll t)"
    and fm: "\<forall>a. a \<noteq> Suc (Suc ?n) \<longrightarrow>
               members (forOfMatches ?st3 (Suc ?n) (Suc (Suc ?n)) t) a = members ?st3 a"
    and fl: "\<forall>a. a \<noteq> Suc ?n \<longrightarrow>
               lastIndexes (forOfMatches ?st3 (Suc ?n) (Suc (Suc ?n)) t) a = lastIndexes ?st3 a"
    and fn: "nextObject (forOfMatches ?st3 (Suc ?n) (Suc (Suc ?n)) t) = nextObject ?st3"
    by simp_all
  from call r have "fst (extractVariables_call st t) = extractVariables t"
    by (simp add: extractVariables_def)
  moreover from call fn have "nextObject (snd (extractVariables_call st t)) = ?n + 3"
    by simp
  moreover from call fm fl have "\<forall>a. a < ?n \<longrightarrow>
         lastIndexes (snd (extractVariables_call st t)) a = lastIndexes st a
         \<and> members (snd (extractVariables_call st t)) a = members st a"
    by simp
  ultimately show ?thesis by blast
qed

lemma applyVariables_call_result:
  "fst (applyVariables_call st t values) = applyVariables t values
   \<and> nextObject (snd (applyVariables_call st t values)) = nextObject st + 1
   \<and> (\<forall>a. a < nextObject st \<longrightarrow>
         lastIndexes (snd (applyVariables_call st t values)) a = lastIndexes st a
         \<and> members (snd (applyVariables_call st t values)) a = members st a)"
proof -
  let ?n = "nextObject st"
  let ?st2 = "st\<lparr>nextObject := Suc ?n, lastIndexes := (lastIndexes st)(?n := 0)\<rparr>"
  have call: "applyVariables_call st t values = replaceLoop ?st2 ?n t (replacer values)"
    by (simp add: applyVariables_call_def newRegExp_def Let_def)
  have "lastIndexes ?st2 ?n \<le> length t" by simp
  from replaceLoop_result[OF this, of "replacer values"]
  have r: "fst (replaceLoop ?st2 ?n t (replacer values)) = replace (replacer values) t"
    and fm: "members (snd (replaceLoop ?st2 ?n t (replacer values))) = members ?st2"
    and fl: "\<forall>a. a \<noteq> ?n \<longrightarrow>
               lastIndexes (snd (replaceLoop ?st2 ?n t (replacer values))) a = lastIndexes ?st2 a"
    and fn: "nextObject (snd (replaceLoop ?st2 ?n t (replacer values))) = nextObject ?st2"
    by simp_all
  from call r have "fst (applyVariables_call st t values) = applyVariables t values"
    by (simp add: applyVariables_def)
  moreover from call fn have "nextObject (snd (applyVariables_call st t values)) = ?n + 1"
    by simp
  moreover from call fm fl have "\<forall>a. a < ?n \<longrightarrow>
         lastIndexes (snd (applyVariables_call st t values)) a = lastIndexes st a
         \<and> members (snd (applyVariables_call st t values)) a = members st a"
    by simp
  ultimately show ?thesis by blast
qed

text \<open>
  Claim C8. A call takes the store of objects the calls before it have left and returns its
  result and the store it leaves. \<open>extractVariables\<close> called twice on the same template,
  the second call in the store the first one left, yields the same sequence; from whatever
  store a call starts, the result of \<open>extractVariables\<close> is a function of the template
  and that of \<open>applyVariables\<close> a function of the template and the values (the functions
  \<open>extractVariables\<close> and \<open>applyVariables\<close> of this theory); and a call changes no
  object that was in the store before it: the pattern and the set it works on are its own,
  made anew. So no state is carried from call to call.
\<close>

theorem pure_transforms:
  "fst (extractVariables_call (snd (extractVariables_call st t)) t) = fst (extractVariables_call st t)
   \<and> fst (extractVariables_call st' t) = fst (extractVariables_call st t)
   \<and> fst (applyVariables_call (snd (applyVariables_call st t values)) t values)
       = fst (applyVariables_call st t values)
   \<and> fst (applyVariables_call st' t values) = fst (applyVariables_call st t values)
   \<and> fst (extractVariables_call st t) = extractVariables t
   \<and> fst (applyVariables_call st t values) = applyVariables t values
   \<and> (a < nextObject st \<longrightarrow>
        lastIndexes (snd (extractVariables_call st t)) a = lastIndexes st a
        \<and> members (snd (extractVariables_call st t)) a = members st a
        \<and> lastIndexes (snd (applyVariables_call st t values)) a = lastIndexes st a
        \<and> members (snd (applyVariables_call st t values)) a = members st a)"
  using extractVariables_call_result applyVariables_call_result by simp

theorem pure_transforms_witness:
  "(0::nat) < nextObject (snd (extractVariables_call emptyStore (js ''{a}{b}'')))
   \<and> lastIndexes (snd (applyVariables_call (snd (extractVariables_call emptyStore (js ''{a}{b}'')))
         (js ''Hi {a}'') [js ''a'' \<mapsto> js ''x''])) 0
       = lastIndexes (snd (extractVariables_call emptyStore (js ''{a}{b}''))) 0
   \<and> members (snd (extractVariables_call (snd (extractVariables_call emptyStore (js ''{a}{b}'')))
         (js ''Hi {a}''))) 0
       = members (snd (extractVariables_call emptyStore (js ''{a}{b}''))) 0
   \<and> fst (extractVariables_call (snd (extractVariables_call emptyStore (js ''{a}{b}''))) (js ''Hi {a}''))
       = fst (extractVariables_call emptyStore (js ''Hi {a}''))
   \<and> fst (extractVariables_call emptyStore (js ''Hi {a}'')) = [js ''a'']"
proof -
  have h: "(0::nat) < nextObject (snd (extractVariables_call emptyStore (js ''{a}{b}'')))"
    by code_simp
  have e: "extractVariables (js ''Hi {a}'') = [js ''a'']"
    by code_simp
  show ?thesis
    using h e
      pure_transforms [of "snd (extractVariables_call emptyStore (js ''{a}{b}''))" "js ''Hi {a}''"
        emptyStore "[js ''a'' \<mapsto> js ''x'']" 0]
    by simp
qed

section \<open>The bounded error log\<close>

lemma logError_log:
  "errorLog (logError h err sev cat ctx now)
   = (if length (errorLog h) < maxLogSize h
      then errorLog h @ [loggedErrorOf err sev cat ctx now]
      else tl (errorLog h @ [loggedErrorOf err sev cat ctx now]))"
  by (auto simp: logError_def Let_def)

lemma logError_maxLogSize: "maxLogSize (logError h err sev cat ctx now) = maxLogSize h"
  by (simp add: logError_def Let_def)

lemma logErrors_log:
  "maxLogSize h = 100 \<Longrightarrow> length (errorLog h) \<le> 100 \<Longrightarrow>
   errorLog (logErrors h calls)
   = drop (length (errorLog h) + length calls - 100) (errorLog h @ map entryOf calls)"
proof (induction h calls rule: logErrors.induct)
  case (1 h)
  then show ?case by simp
next
  case (2 h err sev cat ctx now calls)
  let ?e = "loggedErrorOf err sev cat ctx now"
  let ?h = "logError h err sev cat ctx now"
  let ?L = "errorLog h"
  have m: "maxLogSize ?h = 100" using 2(2) by (simp add: logError_maxLogSize)
  show ?case
  proof (cases "length ?L < 100")
    case True
    then have L': "errorLog ?h = ?L @ [?e]" using 2(2) by (simp add: logError_log)
    then have "length (errorLog ?h) \<le> 100" using True by simp
    from 2(1)[OF m this] L' show ?thesis by simp
  next
    case False
    with 2(3) have len: "length ?L = 100" by simp
    then have L': "errorLog ?h = tl (?L @ [?e])" using 2(2) by (simp add: logError_log)
    then have l100: "length (errorLog ?h) = 100" using len by simp
    then have "length (errorLog ?h) \<le> 100" by simp
    from 2(1)[OF m this] have "errorLog (logErrors ?h calls)
      = drop (length calls) (tl (?L @ [?e]) @ map entryOf calls)"
      using l100 L' by simp
    also have "tl (?L @ [?e]) @ map entryOf calls = drop 1 (?L @ ?e # map entryOf calls)"
      using len by (cases ?L) simp_all
    finally show ?thesis using len by simp
  qed
qed

lemma slice_array_suffix: "\<exists>k. slice_array xs start = drop k xs"
  by (auto simp: slice_array_def Let_def)

lemma getErrorLog_suffix: "\<exists>k. getErrorLog h limit = drop k (errorLog h)"
proof (cases limit)
  case None
  then have "getErrorLog h limit = drop 0 (errorLog h)" by (simp add: getErrorLog_def)
  then show ?thesis by blast
next
  case (Some l)
  show ?thesis
  proof (cases "l = 0")
    case True
    with Some have "getErrorLog h limit = drop 0 (errorLog h)" by (simp add: getErrorLog_def)
    then show ?thesis by blast
  next
    case False
    with Some show ?thesis using slice_array_suffix by (simp add: getErrorLog_def)
  qed
qed

text \<open>
  Claim C10. After any sequence of \<^verbatim>\<open>logError\<close> calls on the handler, the stored log
  holds at most 100 entries: it is the last 100 entries logged (all of them while there are
  fewer), oldest first. A call on a log below the bound appends; a call on a full log drops
  the first, oldest entry and appends; no call changes the bound, and
  \<^verbatim>\<open>clearErrorLog\<close> empties the log. \<^verbatim>\<open>getErrorLog\<close> returns a final stretch of
  the stored log, so never more than the 100 most recent errors.
\<close>

theorem error_log_bounded:
  "length (errorLog (logErrors newErrorHandler calls)) \<le> 100
   \<and> errorLog (logErrors newErrorHandler calls) = drop (length calls - 100) (map entryOf calls)
   \<and> length (getErrorLog (logErrors newErrorHandler calls) limit) \<le> 100
   \<and> (\<exists>k. getErrorLog (logErrors newErrorHandler calls) limit = drop k (map entryOf calls))
   \<and> (length (errorLog h) < maxLogSize h \<longrightarrow>
        errorLog (logError h err sev cat ctx now)
        = errorLog h @ [loggedErrorOf err sev cat ctx now])
   \<and> (errorLog h \<noteq> [] \<and> length (errorLog h) = maxLogSize h \<longrightarrow>
        errorLog (logError h err sev cat ctx now)
        = tl (errorLog h) @ [loggedErrorOf err sev cat ctx now])
   \<and> maxLogSize (logError h err sev cat ctx now) = maxLogSize h
   \<and> errorLog (clearErrorLog h) = [] \<and> maxLogSize (clearErrorLog h) = maxLogSize h"
proof -
  let ?h = "logErrors newErrorHandler calls"
  have rest: "maxLogSize (logError h err sev cat ctx now) = maxLogSize h"
    "errorLog (clearErrorLog h) = []" "maxLogSize (clearErrorLog h) = maxLogSize h"
    by (simp_all add: logError_maxLogSize clearErrorLog_def)
  have log: "errorLog ?h = drop (length calls - 100) (map entryOf calls)"
    using logErrors_log[of newErrorHandler calls] by (simp add: newErrorHandler_def)
  then have len: "length (errorLog ?h) \<le> 100" by simp
  obtain k where k: "getErrorLog ?h limit = drop k (errorLog ?h)"
    using getErrorLog_suffix by blast
  then have glen: "length (getErrorLog ?h limit) \<le> 100" using len by simp
  have gsuf: "\<exists>k. getErrorLog ?h limit = drop k (map entryOf calls)"
    using k log by (metis drop_drop)
  have push: "length (errorLog h) < maxLogSize h \<longrightarrow>
        errorLog (logError h err sev cat ctx now)
        = errorLog h @ [loggedErrorOf err sev cat ctx now]"
    by (simp add: logError_log)
  have shift: "errorLog h \<noteq> [] \<and> length (errorLog h) = maxLogSize h \<longrightarrow>
        errorLog (logError h err sev cat ctx now)
        = tl (errorLog h) @ [loggedErrorOf err sev cat ctx now]"
    by (simp add: logError_log)
  from log len glen gsuf push shift rest show ?thesis by blast
qed

theorem error_log_bounded_witness:
  "length (errorLog newErrorHandler) < maxLogSize newErrorHandler
   \<and> errorLog (logError newErrorHandler (NotAnError ''boom'' None) None None None 7)
       = errorLog newErrorHandler @ [loggedErrorOf (NotAnError ''boom'' None) None None None 7]
   \<and> errorLog \<lparr>errorLog = replicate 100 (loggedErrorOf (NotAnError ''old'' None) None None None 0),
               maxLogSize = 100\<rparr> \<noteq> []
   \<and> length (errorLog \<lparr>errorLog = replicate 100 (loggedErrorOf (NotAnError ''old'' None) None None None 0),
                       maxLogSize = 100\<rparr>)
       = maxLogSize \<lparr>errorLog = replicate 100 (loggedErrorOf (NotAnError ''old'' None) None None None 0),
                     maxLogSize = 100\<rparr>
   \<and> errorLog (logError \<lparr>errorLog = replicate 100 (loggedErrorOf (NotAnError ''old'' None) None None None 0),
                          maxLogSize = 100\<rparr> (NotAnError ''boom'' None) None None None 7)
       = tl (errorLog \<lparr>errorLog = replicate 100 (loggedErrorOf (NotAnError ''old'' None) None None None 0),
                      maxLogSize = 100\<rparr>)
         @ [loggedErrorOf (NotAnError ''boom'' None) None None None 7]"
proof -
  let ?full = "\<lparr>errorLog = replicate 100 (loggedErrorOf (NotAnError ''old'' None) None None None 0),
               maxLogSize = 100\<rparr>"
  have h1: "length (errorLog newErrorHandler) < maxLogSize newErrorHandler"
    by (simp add: newErrorHandler_def)
  have h2: "errorLog ?full \<noteq> [] \<and> length (errorLog ?full) = maxLogSize ?full"
    by simp
  show ?thesis
    using h1 h2
      error_log_bounded [of "[]" None newErrorHandler "NotAnError ''boom'' None" None None None 7]
      error_log_bounded [of "[]" None ?full "NotAnError ''boom'' None" None None None 7]
    by blast
qed

end
